theory Spec2Isabelle
  imports Main "HOL-Library.Word" "HOL-Library.Char_ord" "HOL-Library.List_Lexorder"
begin

section \<open>The argument parser of argparser.hpp\<close>

text \<open>
  The header defines three classes. \<open>AnyTypeArg\<close> is the type-erased slot of one declared
  argument, \<open>TypeHandler<T>\<close> its typed subclass with one \<open>setValueChar\<close> specialisation per
  supported type, and \<open>Parser\<close> owns the map from name tokens to slots and the \<open>parse\<close> loop.

  Conventions of the embedding.
  \<^item> C strings are \<open>string\<close>; a \<open>const char*\<close> that may be the null pointer is a
    \<open>string option\<close>, \<open>None\<close> being \<open>nullptr\<close>.
  \<^item> The integer widths are those of an LP64 platform: \<open>int\<close> and \<open>unsigned int\<close> have 32
    bits, the \<open>long\<close> and \<open>long long\<close> types 64 bits. A conversion to a narrower integer type
    keeps the low bits.
  \<^item> Floating-point values are not interpreted: they are elements of a type parameter
    \<open>'f\<close>, and the library function \<open>strtof\<close> is a parameter of the conversions. It returns
    the value read and the number of characters it consumed.
  \<^item> An object address is a \<open>nat\<close>; the \<open>TypeHandler\<close> objects live in a heap, a map from
    addresses to slots.
  \<^item> Undefined behaviour (a dereferenced null or dangling pointer) is the result \<open>Inl\<close>.
\<close>

subsection \<open>The C library: character classes and \<open>strtol\<close>, \<open>strtoul\<close>\<close>

text \<open>
  Modelled from the C standard (7.4.1 and 7.22.1.4, "C" locale, base 10): the subject
  sequence is optional white space, an optional sign and a non-empty run of decimal digits.
  When there is no such sequence nothing is consumed and the value is 0. \<open>strtol\<close> clamps
  to the range of \<open>long\<close>; \<open>strtoul\<close> returns \<open>ULONG_MAX\<close> when the magnitude does not fit
  and otherwise negates in the unsigned type when the sign is a minus.
\<close>

definition isspace :: "char \<Rightarrow> bool" where
  "isspace c \<longleftrightarrow> c \<in> set [CHR '' '', CHR 0x09, CHR 0x0A, CHR 0x0B, CHR 0x0C, CHR 0x0D]"

definition isdigit :: "char \<Rightarrow> bool" where
  "isdigit c \<longleftrightarrow> c \<in> set ''0123456789''"

definition digit_val :: "char \<Rightarrow> int" where
  "digit_val c = of_char c - 48"

definition digits_val :: "string \<Rightarrow> int" where
  "digits_val ds = foldl (\<lambda>a c. 10 * a + digit_val c) 0 ds"

definition subject :: "string \<Rightarrow> bool \<times> int \<times> nat" where
  "subject s =
     (let ws = takeWhile isspace s;
          r = dropWhile isspace s;
          neg = (case r of [] \<Rightarrow> False | c # _ \<Rightarrow> c = CHR ''-'');
          sg = (case r of [] \<Rightarrow> 0 | c # _ \<Rightarrow> if c = CHR ''-'' \<or> c = CHR ''+'' then 1 else 0);
          ds = takeWhile isdigit (drop sg r)
      in if ds = [] then (False, 0, 0)
         else (neg, digits_val ds, length ws + sg + length ds))"

definition strtol :: "string \<Rightarrow> int \<times> nat" where
  "strtol s =
     (case subject s of (neg, m, e) \<Rightarrow>
        (if neg then max (- m) (- (2 ^ 63)) else min m (2 ^ 63 - 1), e))"

definition strtoul :: "string \<Rightarrow> 64 word \<times> nat" where
  "strtoul s =
     (case subject s of (neg, m, e) \<Rightarrow>
        (if 2 ^ 64 \<le> m then - 1 else if neg then - word_of_int m else word_of_int m, e))"

subsection \<open>Slots: \<open>AnyTypeArg\<close> and \<open>TypeHandler<T>\<close>\<close>

text \<open>
  The storage behind \<open>_value\<close> together with the type it was allocated for. There is one
  constructor per specialisation of \<open>setValueChar\<close>; no other \<open>TypeHandler\<close> links.
\<close>

datatype 'f val =
    V_string string
  | V_charp string
  | V_int "32 word"
  | V_long "64 word"
  | V_longlong "64 word"
  | V_uint "32 word"
  | V_ulong "64 word"
  | V_ulonglong "64 word"
  | V_float 'f
  | V_double 'f
  | V_bool bool
  | V_char char

text \<open>\<open>std::type_info\<close>: the twelve supported types and any other type by its name.\<close>

datatype type_info =
    T_string | T_charp | T_int | T_long | T_longlong | T_uint | T_ulong | T_ulonglong
  | T_float | T_double | T_bool | T_char | T_other string

record 'f AnyTypeArg =
  m_value :: "'f val"
  m_helpMsg :: string
  m_errorMsg :: string
  m_required :: bool
  m_set :: bool

datatype undefined_behaviour = NullDereference | DanglingPointer

datatype exception = Runtime_error string

fun typeid_of :: "'f val \<Rightarrow> type_info" where
  "typeid_of (V_string _) = T_string"
| "typeid_of (V_charp _) = T_charp"
| "typeid_of (V_int _) = T_int"
| "typeid_of (V_long _) = T_long"
| "typeid_of (V_longlong _) = T_longlong"
| "typeid_of (V_uint _) = T_uint"
| "typeid_of (V_ulong _) = T_ulong"
| "typeid_of (V_ulonglong _) = T_ulonglong"
| "typeid_of (V_float _) = T_float"
| "typeid_of (V_double _) = T_double"
| "typeid_of (V_bool _) = T_bool"
| "typeid_of (V_char _) = T_char"

definition getTypeInfo :: "'f AnyTypeArg \<Rightarrow> type_info" where
  "getTypeInfo a = typeid_of (m_value a)"

text \<open>\<open>AnyTypeArg::getValue<T>\<close>: the requested type \<open>T\<close> is the first argument.\<close>

definition getValue :: "type_info \<Rightarrow> 'f AnyTypeArg \<Rightarrow> exception + 'f val" where
  "getValue T a =
     (if getTypeInfo a \<noteq> T then Inl (Runtime_error ''Types does not match.'')
      else Inr (m_value a))"

text \<open>
  The test \<open>end == value || *end != 0\<close> of the numeric specialisations, on the number of
  characters the library function consumed.
\<close>

definition not_whole :: "nat \<Rightarrow> string \<Rightarrow> bool" where
  "not_whole e s \<longleftrightarrow> e = 0 \<or> e < length s"

definition quoted :: "string \<Rightarrow> string" where
  "quoted s = ''\"'' @ s @ ''\"''"

text \<open>
  The numeric specialisations store the library's result first and test the end pointer
  afterwards, so a failed conversion has overwritten the value all the same.
\<close>

definition numeric :: "'f AnyTypeArg \<Rightarrow> 'f val \<Rightarrow> nat \<Rightarrow> string \<Rightarrow> string \<Rightarrow> int \<times> 'f AnyTypeArg" where
  "numeric a v e s what =
     (if not_whole e s then (- 1, a\<lparr>m_value := v, m_errorMsg := quoted s @ what\<rparr>)
      else (1, a\<lparr>m_value := v\<rparr>))"

fun setValueChar ::
  "(string \<Rightarrow> 'f \<times> nat) \<Rightarrow> 'f AnyTypeArg \<Rightarrow> string option \<Rightarrow>
     undefined_behaviour + (int \<times> 'f AnyTypeArg)" where
  "setValueChar strtof a None =
     (case m_value a of
        V_bool b \<Rightarrow> Inr (0, a\<lparr>m_value := V_bool (\<not> b)\<rparr>)
      | _ \<Rightarrow> Inl NullDereference)"
| "setValueChar strtof a (Some s) =
     (case m_value a of
        V_string _ \<Rightarrow> Inr (1, a\<lparr>m_value := V_string s\<rparr>)
      | V_charp _ \<Rightarrow> Inr (1, a\<lparr>m_value := V_charp s\<rparr>)
      | V_int _ \<Rightarrow>
          Inr (numeric a (V_int (word_of_int (fst (strtol s)))) (snd (strtol s)) s
                 '' is not an integer.'')
      | V_long _ \<Rightarrow>
          Inr (numeric a (V_long (word_of_int (fst (strtol s)))) (snd (strtol s)) s
                 '' is not an integer.'')
      | V_longlong _ \<Rightarrow>
          Inr (numeric a (V_longlong (word_of_int (fst (strtol s)))) (snd (strtol s)) s
                 '' is not an integer.'')
      | V_uint _ \<Rightarrow>
          Inr (numeric a (V_uint (ucast (fst (strtoul s)))) (snd (strtoul s)) s
                 '' is not a positive integer.'')
      | V_ulong _ \<Rightarrow>
          Inr (numeric a (V_ulong (fst (strtoul s))) (snd (strtoul s)) s
                 '' is not a positive integer.'')
      | V_ulonglong _ \<Rightarrow>
          Inr (numeric a (V_ulonglong (fst (strtoul s))) (snd (strtoul s)) s
                 '' is not a positive integer.'')
      | V_float _ \<Rightarrow>
          Inr (numeric a (V_float (fst (strtof s))) (snd (strtof s)) s '' is not a number.'')
      | V_double _ \<Rightarrow>
          Inr (numeric a (V_double (fst (strtof s))) (snd (strtof s)) s '' is not a number.'')
      | V_bool b \<Rightarrow> Inr (0, a\<lparr>m_value := V_bool (\<not> b)\<rparr>)
      | V_char _ \<Rightarrow>
          Inr (0, a\<lparr>m_value := V_char (case s of [] \<Rightarrow> CHR 0x00 | c # _ \<Rightarrow> c)\<rparr>))"

text \<open>\<open>TypeHandler<T>::setValue(const char*)\<close>: mark the slot, then convert.\<close>

definition setValue ::
  "(string \<Rightarrow> 'f \<times> nat) \<Rightarrow> 'f AnyTypeArg \<Rightarrow> string option \<Rightarrow>
     undefined_behaviour + (int \<times> 'f AnyTypeArg)" where
  "setValue strtof a v = setValueChar strtof (a\<lparr>m_set := True\<rparr>) v"

subsection \<open>Ordered maps\<close>

text \<open>
  \<open>std::map\<close> keeps its entries in ascending key order, and the loops over \<open>_argData\<close>,
  \<open>ReqSorter\<close> and \<open>Sorter\<close> visit them in that order. A map is the list of its entries in
  key order. \<open>map_modify k f m\<close> is \<open>m[k] = f(old)\<close>, where \<open>old\<close> is the entry under \<open>k\<close>
  when there is one.
\<close>

fun map_modify :: "'k::linorder \<Rightarrow> ('v option \<Rightarrow> 'v) \<Rightarrow> ('k \<times> 'v) list \<Rightarrow> ('k \<times> 'v) list" where
  "map_modify k f [] = [(k, f None)]"
| "map_modify k f ((k', v) # m) =
     (if k < k' then (k, f None) # (k', v) # m
      else if k = k' then (k, f (Some v)) # m
      else (k', v) # map_modify k f m)"

text \<open>\<open>std::map::insert\<close> keeps the entry of a key that is already present.\<close>

definition map_insert :: "'k::linorder \<Rightarrow> 'v \<Rightarrow> ('k \<times> 'v) list \<Rightarrow> ('k \<times> 'v) list" where
  "map_insert k v m = map_modify k (\<lambda>old. case old of None \<Rightarrow> v | Some v' \<Rightarrow> v') m"

subsection \<open>The parser\<close>

text \<open>
  \<open>HelpEnabled\<close>, \<open>AllowUnknownArguments\<close> and \<open>WelcomeMessage\<close> are virtual functions a
  subclass may override with other constants; they are fields here. The defaults are
  \<open>true\<close>, \<open>false\<close> and a fixed sentence.
\<close>

record 'f Parser =
  argData :: "(string \<times> nat) list"
  p_errorMsg :: string
  heap :: "nat \<Rightarrow> 'f AnyTypeArg option"
  HelpEnabled :: bool
  AllowUnknownArguments :: bool
  WelcomeMessage :: string

definition Parser_default :: "'f Parser" where
  "Parser_default =
     \<lparr>argData = [], p_errorMsg = [], heap = (\<lambda>_. None), HelpEnabled = True,
      AllowUnknownArguments = False,
      WelcomeMessage = ''This are the arguments available for this program:''\<rparr>"

text \<open>
  \<open>Parser::arg<T>\<close>. The type \<open>T\<close> is that of the default value; \<open>ptr\<close> is the address
  \<open>new\<close> returned for the \<open>TypeHandler\<close>, and \<open>TypeHandler_new\<close> is the object once \<open>arg\<close>
  has called its three setters. The function returns the parser; the handle the source
  returns is the value storage of the slot at \<open>ptr\<close>.
\<close>

definition TypeHandler_new :: "'f val \<Rightarrow> string \<Rightarrow> bool \<Rightarrow> 'f AnyTypeArg" where
  "TypeHandler_new defaultValue helpMessage required =
     \<lparr>m_value = defaultValue, m_helpMsg = helpMessage, m_errorMsg = [],
      m_required = required, m_set = False\<rparr>"

definition arg ::
  "nat \<Rightarrow> string \<Rightarrow> string \<Rightarrow> 'f val \<Rightarrow> string \<Rightarrow> bool \<Rightarrow> 'f Parser \<Rightarrow> 'f Parser" where
  "arg ptr LongName ShortName defaultValue helpMessage required p =
     (let value = TypeHandler_new defaultValue helpMessage required;
          p1 = p\<lparr>heap := (heap p)(ptr \<mapsto> value)\<rparr>;
          p2 = (if LongName \<noteq> [] then p1\<lparr>argData := map_insert (''--'' @ LongName) ptr (argData p1)\<rparr>
                else p1)
      in if ShortName \<noteq> [] then p2\<lparr>argData := map_insert (''-'' @ ShortName) ptr (argData p2)\<rparr>
         else p2)"

text \<open>
  The locals of \<open>parse\<close>: the flag \<open>error\<close> and the vector behind \<open>out_arg\<close> (\<open>None\<close> when the
  caller passed \<open>nullptr\<close>). \<open>reads\<close> is a ghost variable: the indices at which \<open>argv\<close> has
  been read, in order.
\<close>

record locals =
  error :: bool
  out_arg :: "string list option"
  reads :: "nat list"

text \<open>
  \<open>argv\<close> is the argument vector \<open>main\<close> received, \<open>argc\<close> its length. The element
  \<open>argv[argc]\<close> exists and is the null pointer.
\<close>

definition argv_at :: "string list \<Rightarrow> nat \<Rightarrow> string option" where
  "argv_at argv j = (if j < length argv then Some (argv ! j) else None)"

text \<open>\<open>_errorMsg += _errorMsg == "" ? "" : "\n"; _errorMsg += line;\<close>\<close>

definition append_line :: "string \<Rightarrow> string \<Rightarrow> string" where
  "append_line msg line = (msg @ (if msg = [] then [] else [CHR 0x0A])) @ line"

text \<open>One iteration of the loop of \<open>parse\<close>, entered with \<open>i < argc\<close>.\<close>

definition step ::
  "(string \<Rightarrow> 'f \<times> nat) \<Rightarrow> string list \<Rightarrow> nat \<Rightarrow> 'f Parser \<times> locals \<Rightarrow>
     undefined_behaviour + (nat \<times> 'f Parser \<times> locals)" where
  "step strtof argv i pl =
     (case pl of (p, l) \<Rightarrow>
        let l1 = l\<lparr>reads := reads l @ [i]\<rparr> in
        (case map_of (argData p) (argv ! i) of
          None \<Rightarrow>
            let l2 = l1\<lparr>out_arg := map_option (\<lambda>v. v @ [argv ! i]) (out_arg l1)\<rparr> in
            if \<not> AllowUnknownArguments p
            then Inr (i + 1,
                      p\<lparr>p_errorMsg := append_line (p_errorMsg p) (''Unknown argument: '' @ argv ! i)\<rparr>,
                      l2\<lparr>error := True\<rparr>)
            else Inr (i + 1, p, l2)
        | Some ptr \<Rightarrow>
            let l2 = l1\<lparr>reads := reads l1 @ [i + 1]\<rparr> in
            (case heap p ptr of
               None \<Rightarrow> Inl DanglingPointer
             | Some a \<Rightarrow>
                 (case setValue strtof a (argv_at argv (i + 1)) of
                    Inl u \<Rightarrow> Inl u
                  | Inr (retVal, a') \<Rightarrow>
                      let p1 = p\<lparr>heap := (heap p)(ptr \<mapsto> a')\<rparr> in
                      if retVal < 0 \<or> retVal > 1
                      then Inr (i + 2,
                                p1\<lparr>p_errorMsg := append_line (p_errorMsg p1)
                                     (''Error in argument: '' @ argv ! i @ '', '' @ m_errorMsg a')\<rparr>,
                                l2\<lparr>error := True\<rparr>)
                      else Inr (i + 1 + nat retVal, p1, l2)))))"

lemma step_advances:
  "step strtof argv i pl = Inr (i', pl') \<Longrightarrow> i < i'"
  by (auto simp: step_def Let_def split: prod.splits option.splits sum.splits if_splits)

function scan ::
  "(string \<Rightarrow> 'f \<times> nat) \<Rightarrow> string list \<Rightarrow> nat \<Rightarrow> 'f Parser \<times> locals \<Rightarrow>
     undefined_behaviour + ('f Parser \<times> locals)" where
  "scan strtof argv i pl =
     (if i < length argv
      then (case step strtof argv i pl of
              Inl u \<Rightarrow> Inl u
            | Inr (i', pl') \<Rightarrow> scan strtof argv i' pl')
      else Inr pl)"
  by pat_completeness auto
termination
  by (relation "measure (\<lambda>(strtof, argv, i, pl). length argv - i)")
     (auto dest: step_advances)

declare scan.simps [simp del]

text \<open>The loop over \<open>_argData\<close> that fills \<open>ReqSorter\<close>.\<close>

fun required_loop ::
  "(nat \<Rightarrow> 'f AnyTypeArg option) \<Rightarrow> (string \<times> nat) list \<Rightarrow> bool \<times> (nat \<times> string) list \<Rightarrow>
     undefined_behaviour + (bool \<times> (nat \<times> string) list)" where
  "required_loop h [] er = Inr er"
| "required_loop h ((name, ptr) # m) (e, ReqSorter) =
     (case h ptr of
        None \<Rightarrow> Inl DanglingPointer
      | Some a \<Rightarrow>
          if m_required a \<and> \<not> m_set a
          then required_loop h m
                 (True, map_modify ptr (\<lambda>old. case old of None \<Rightarrow> name
                                              | Some s \<Rightarrow> s @ '' or '' @ name) ReqSorter)
          else required_loop h m (e, ReqSorter))"

text \<open>The block under \<open>if(error && !ReqSorter.empty())\<close>.\<close>

definition report_required :: "bool \<Rightarrow> (nat \<times> string) list \<Rightarrow> string \<Rightarrow> string" where
  "report_required e ReqSorter msg =
     (if e \<and> ReqSorter \<noteq> []
      then let m1 = append_line msg ''The following required arguments was not set: '';
               m2 = foldl (\<lambda>m pair. m @ snd pair @ '', '') m1 ReqSorter
           in take (length m2 - 2) m2
      else msg)"

text \<open>\<open>Parser::GetHelpMessage\<close>; \<open>setw n\<close> pads on the left to \<open>n\<close> characters.\<close>

definition setw :: "nat \<Rightarrow> string \<Rightarrow> string" where
  "setw n s = replicate (n - length s) CHR '' '' @ s"

definition Sorter_of :: "(string \<times> nat) list \<Rightarrow> (nat \<times> string \<times> string) list" where
  "Sorter_of m =
     foldl (\<lambda>Sorter (name, ptr).
              map_modify ptr (\<lambda>old. case old of Some (c0, c1) \<Rightarrow> (name, c1)
                                      | None \<Rightarrow> ([], name)) Sorter) [] m"

fun help_lines ::
  "(nat \<Rightarrow> 'f AnyTypeArg option) \<Rightarrow> (nat \<times> string \<times> string) list \<Rightarrow>
     undefined_behaviour + string" where
  "help_lines h [] = Inr []"
| "help_lines h ((ptr, c0, c1) # m) =
     (case h ptr of
        None \<Rightarrow> Inl DanglingPointer
      | Some a \<Rightarrow>
          (case help_lines h m of
             Inl u \<Rightarrow> Inl u
           | Inr rest \<Rightarrow>
               Inr (setw 10 c0 @ '' '' @ setw 10 c1 @ '' : '' @ m_helpMsg a @ [CHR 0x0A] @ rest)))"

definition GetHelpMessage :: "'f Parser \<Rightarrow> undefined_behaviour + string" where
  "GetHelpMessage p =
     (case help_lines (heap p) (Sorter_of (argData p)) of
        Inl u \<Rightarrow> Inl u
      | Inr ls \<Rightarrow> Inr (WelcomeMessage p @ [CHR 0x0A] @ ls))"

text \<open>
  How a call of \<open>parse\<close> ends: \<open>exit(status)\<close> after writing to the standard output,
  undefined behaviour, or a return with the parser and the locals as they are then.
\<close>

datatype 'f outcome =
    Exit int string locals
  | Undefined undefined_behaviour
  | Returned bool "'f Parser" locals

definition parse ::
  "(string \<Rightarrow> 'f \<times> nat) \<Rightarrow> 'f Parser \<Rightarrow> string list \<Rightarrow> string list option \<Rightarrow> 'f outcome" where
  "parse strtof p argv out =
     (let p0 = p\<lparr>p_errorMsg := []\<rparr>;
          l0 = \<lparr>error = False, out_arg = out,
                reads = (if HelpEnabled p0 \<and> length argv = 2 then [1] else [])\<rparr>
      in if HelpEnabled p0 \<and> length argv = 2 \<and> (argv ! 1 = ''--help'' \<or> argv ! 1 = ''-h'')
         then (case GetHelpMessage p0 of
                 Inl u \<Rightarrow> Undefined u
               | Inr text \<Rightarrow> Exit 0 text l0)
         else (case scan strtof argv 1 (p0, l0) of
                 Inl u \<Rightarrow> Undefined u
               | Inr (p1, l1) \<Rightarrow>
                   (case required_loop (heap p1) (argData p1) (error l1, []) of
                      Inl u \<Rightarrow> Undefined u
                    | Inr (e, ReqSorter) \<Rightarrow>
                        Returned (\<not> e) (p1\<lparr>p_errorMsg := report_required e ReqSorter (p_errorMsg p1)\<rparr>)
                          l1)))"

section \<open>Notions of the specification\<close>

subsection \<open>Numeric literals\<close>

text \<open>
  A literal is an optional sign followed by at least one decimal digit, and
  \<open>literal_value\<close> is the integer it denotes. \<open>int_token\<close> is the strict whole-string match
  of the numeric conversions: a literal, possibly after white space, and nothing else.
\<close>

definition literal :: "string \<Rightarrow> bool" where
  "literal s =
     (let d = (case s of [] \<Rightarrow> [] | c # t \<Rightarrow> if c = CHR ''-'' \<or> c = CHR ''+'' then t else s)
      in d \<noteq> [] \<and> list_all isdigit d)"

definition literal_value :: "string \<Rightarrow> int" where
  "literal_value s =
     (case s of [] \<Rightarrow> 0
      | c # t \<Rightarrow> if c = CHR ''-'' then - digits_val t
                else if c = CHR ''+'' then digits_val t else digits_val s)"

definition int_token :: "string \<Rightarrow> bool" where
  "int_token s = literal (dropWhile isspace s)"

definition is_signed :: "type_info \<Rightarrow> bool" where
  "is_signed T \<longleftrightarrow> T \<in> set [T_int, T_long, T_longlong]"

definition is_unsigned :: "type_info \<Rightarrow> bool" where
  "is_unsigned T \<longleftrightarrow> T \<in> set [T_uint, T_ulong, T_ulonglong]"

definition is_floating :: "type_info \<Rightarrow> bool" where
  "is_floating T \<longleftrightarrow> T \<in> set [T_float, T_double]"

definition width :: "type_info \<Rightarrow> nat" where
  "width T = (if T = T_int \<or> T = T_uint then 32 else 64)"

definition in_range :: "type_info \<Rightarrow> int \<Rightarrow> bool" where
  "in_range T v \<longleftrightarrow>
     (is_signed T \<and> - (2 ^ (width T - 1)) \<le> v \<and> v < 2 ^ (width T - 1)) \<or>
     (is_unsigned T \<and> 0 \<le> v \<and> v < 2 ^ width T)"

text \<open>The integer an integer slot holds, read in the signedness of its type.\<close>

fun stored_integer :: "'f val \<Rightarrow> int option" where
  "stored_integer (V_int w) = Some (sint w)"
| "stored_integer (V_long w) = Some (sint w)"
| "stored_integer (V_longlong w) = Some (sint w)"
| "stored_integer (V_uint w) = Some (uint w)"
| "stored_integer (V_ulong w) = Some (uint w)"
| "stored_integer (V_ulonglong w) = Some (uint w)"
| "stored_integer _ = None"


subsection \<open>The scan, as the specification describes it\<close>

text \<open>
  The outcome of \<open>ConvertFromText\<close> by the declared type of the slot (section 4.1 of the
  specification): "value consumed" (1), "value not consumed" (0), or "conversion failed"
  (a negative sentinel) with the error text the slot then holds. The result is \<open>None\<close>
  where the specification leaves the behaviour undefined: there is no next token and the
  conversion inspects it.
\<close>

datatype signal = Consumed | Not_consumed | Failed string

fun signal_code :: "signal \<Rightarrow> int" where
  "signal_code Consumed = 1"
| "signal_code Not_consumed = 0"
| "signal_code (Failed _) = - 1"

fun ConvertFromText :: "(string \<Rightarrow> 'f \<times> nat) \<Rightarrow> type_info \<Rightarrow> string option \<Rightarrow> signal option" where
  "ConvertFromText strtof T None = (if T = T_bool then Some Not_consumed else None)"
| "ConvertFromText strtof T (Some raw) =
     (if T = T_string \<or> T = T_charp then Some Consumed
      else if is_signed T
      then Some (if int_token raw then Consumed else Failed (quoted raw @ '' is not an integer.''))
      else if is_unsigned T
      then Some (if int_token raw then Consumed
                 else Failed (quoted raw @ '' is not a positive integer.''))
      else if is_floating T
      then Some (if not_whole (snd (strtof raw)) raw then Failed (quoted raw @ '' is not a number.'')
                 else Consumed)
      else if T = T_bool \<or> T = T_char then Some Not_consumed
      else None)"

text \<open>
  What the scan does at one cursor position (section 4.2, step 2): the token there is
  bound to no slot, or it is bound to a slot whose conversion gave a signal. An event
  carries the position, the token and, for a bound token, the slot and the signal. After a
  non-consuming conversion the cursor advances by one, after any other by two.
\<close>

datatype event = Unknown_argument nat string | Converted nat string nat signal

fun advance :: "signal \<Rightarrow> nat" where
  "advance Not_consumed = 1"
| "advance Consumed = 2"
| "advance (Failed _) = 2"

lemma advance_pos: "0 < advance sg"
  by (cases sg) simp_all

text \<open>
  The events of a scan from position \<open>i\<close>, in order. \<open>bindings\<close> is the registry's map from
  name tokens to slots, \<open>types\<close> gives each slot's declared type, and \<open>rawArgs\<close> is indexed
  as \<open>argv\<close> is, the program name at 0. The list stops where the behaviour is undefined.
\<close>

function spec_scan ::
  "(string \<Rightarrow> 'f \<times> nat) \<Rightarrow> (string \<times> nat) list \<Rightarrow> (nat \<Rightarrow> type_info option) \<Rightarrow>
     string list \<Rightarrow> nat \<Rightarrow> event list" where
  "spec_scan strtof bindings types rawArgs i =
     (if i < length rawArgs
      then (case map_of bindings (rawArgs ! i) of
              None \<Rightarrow> Unknown_argument i (rawArgs ! i) # spec_scan strtof bindings types rawArgs (i + 1)
            | Some slot \<Rightarrow>
                (case types slot of
                   None \<Rightarrow> []
                 | Some T \<Rightarrow>
                     (case ConvertFromText strtof T (argv_at rawArgs (i + 1)) of
                        None \<Rightarrow> []
                      | Some sg \<Rightarrow>
                          Converted i (rawArgs ! i) slot sg
                            # spec_scan strtof bindings types rawArgs (i + advance sg))))
      else [])"
  by pat_completeness auto
termination
  by (relation "measure (\<lambda>(strtof, bindings, types, rawArgs, i). length rawArgs - i)")
     (auto simp: advance_pos intro: diff_less_mono2)

declare spec_scan.simps [simp del]

definition types_of :: "'f Parser \<Rightarrow> nat \<Rightarrow> type_info option" where
  "types_of p ptr = map_option getTypeInfo (heap p ptr)"

definition events :: "(string \<Rightarrow> 'f \<times> nat) \<Rightarrow> 'f Parser \<Rightarrow> string list \<Rightarrow> event list" where
  "events strtof p argv = spec_scan strtof (argData p) (types_of p) argv 1"

text \<open>
  The error line of an event, if it has one; \<open>allow\<close> says that unknown arguments are
  permitted. Then the lines of a scan, the tokens it routes to the unmatched output, the
  slots it converts and the positions of the argument vector it reads.
\<close>

fun error_line :: "bool \<Rightarrow> event \<Rightarrow> string option" where
  "error_line allow (Unknown_argument i tok) =
     (if allow then None else Some (''Unknown argument: '' @ tok))"
| "error_line allow (Converted i tok slot (Failed e)) =
     Some (''Error in argument: '' @ tok @ '', '' @ e)"
| "error_line allow (Converted i tok slot _) = None"

definition error_lines :: "bool \<Rightarrow> event list \<Rightarrow> string list" where
  "error_lines allow evs = List.map_filter (error_line allow) evs"

fun unmatched_token :: "event \<Rightarrow> string option" where
  "unmatched_token (Unknown_argument i tok) = Some tok"
| "unmatched_token (Converted i tok slot sg) = None"

definition unmatched :: "event list \<Rightarrow> string list" where
  "unmatched evs = List.map_filter unmatched_token evs"

definition converted_slots :: "event list \<Rightarrow> nat list" where
  "converted_slots evs =
     List.map_filter (\<lambda>ev. case ev of Converted i tok slot sg \<Rightarrow> Some slot | _ \<Rightarrow> None) evs"

fun event_reads :: "event \<Rightarrow> nat list" where
  "event_reads (Unknown_argument i tok) = [i]"
| "event_reads (Converted i tok slot sg) = [i, i + 1]"

subsection \<open>The error report\<close>

text \<open>
  \<open>join sep\<close> puts \<open>sep\<close> between the elements of a list. The label of a slot joins the
  name tokens bound to it, in the order of the map, with \<open>or\<close>. A slot is missing when it
  is required and not set; the missing slots are listed once each, in address order, and
  the summary line joins their labels with commas (section 4.2, steps 3 and 4). The
  report is the error lines of the scan and then the summary line, if any slot is
  missing, joined by newlines (step 5).
\<close>

fun join :: "string \<Rightarrow> string list \<Rightarrow> string" where
  "join sep [] = []"
| "join sep [x] = x"
| "join sep (x # y # ys) = x @ sep @ join sep (y # ys)"

definition names_of :: "(string \<times> nat) list \<Rightarrow> nat \<Rightarrow> string list" where
  "names_of bindings slot = map fst (filter (\<lambda>b. snd b = slot) bindings)"

definition label :: "(string \<times> nat) list \<Rightarrow> nat \<Rightarrow> string" where
  "label bindings slot = join '' or '' (names_of bindings slot)"

definition is_missing :: "(nat \<Rightarrow> 'f AnyTypeArg option) \<Rightarrow> nat \<Rightarrow> bool" where
  "is_missing h slot = (case h slot of None \<Rightarrow> False | Some a \<Rightarrow> m_required a \<and> \<not> m_set a)"

definition missing :: "(string \<times> nat) list \<Rightarrow> (nat \<Rightarrow> 'f AnyTypeArg option) \<Rightarrow> nat list" where
  "missing bindings h = filter (is_missing h) (sort (remdups (map snd bindings)))"

definition summary :: "(string \<times> nat) list \<Rightarrow> (nat \<Rightarrow> 'f AnyTypeArg option) \<Rightarrow> string" where
  "summary bindings h =
     ''The following required arguments was not set: ''
       @ join '', '' (map (label bindings) (missing bindings h))"

definition report ::
  "bool \<Rightarrow> event list \<Rightarrow> (string \<times> nat) list \<Rightarrow> (nat \<Rightarrow> 'f AnyTypeArg option) \<Rightarrow> string" where
  "report allow evs bindings h =
     join [CHR 0x0A]
       (error_lines allow evs @ (if missing bindings h = [] then [] else [summary bindings h]))"

subsection \<open>The help request and the start of a call\<close>

definition help_requested :: "'f Parser \<Rightarrow> string list \<Rightarrow> bool" where
  "help_requested p argv \<longleftrightarrow>
     HelpEnabled p \<and> length argv = 2 \<and> (argv ! 1 = ''--help'' \<or> argv ! 1 = ''-h'')"

text \<open>The locals of \<open>parse\<close> once the test for the help request has been evaluated.\<close>

definition locals0 :: "'f Parser \<Rightarrow> string list \<Rightarrow> string list option \<Rightarrow> locals" where
  "locals0 p argv out =
     \<lparr>error = False, out_arg = out,
      reads = (if HelpEnabled p \<and> length argv = 2 then [1] else [])\<rparr>"

text \<open>
  The three kinds of error a call aggregates (section 7): the tokens that give an
  unknown-argument error, none when unknown arguments are permitted, and the events
  whose conversion failed. The third kind is \<open>missing\<close>.
\<close>

fun conversion_failed :: "event \<Rightarrow> bool" where
  "conversion_failed (Converted i tok slot (Failed e)) = True"
| "conversion_failed _ = False"

definition conversion_errors :: "event list \<Rightarrow> event list" where
  "conversion_errors evs = filter conversion_failed evs"

definition unknown_errors :: "bool \<Rightarrow> event list \<Rightarrow> string list" where
  "unknown_errors allow evs = (if allow then [] else unmatched evs)"

text \<open>
  Two invariants of a parser: every slot a name token is bound to is a live object, and
  the keys of the map are strictly ascending, as those of a \<open>std::map\<close> are.
\<close>

definition no_dangling :: "'f Parser \<Rightarrow> bool" where
  "no_dangling p \<longleftrightarrow> list_all (\<lambda>b. heap p (snd b) \<noteq> None) (argData p)"

definition map_invariant :: "'f Parser \<Rightarrow> bool" where
  "map_invariant p \<longleftrightarrow> sorted_wrt (<) (map fst (argData p))"

text \<open>
  A token is bound when the registry maps it to a slot, and bound to a consuming slot when
  the type of that slot is neither \<open>bool\<close> nor \<open>char\<close>. \<open>followed P argv\<close> says that every
  argument with the property \<open>P\<close> has a further argument after it, and \<open>in_bounds\<close> that
  every position read so far is that of an argument.
\<close>

definition bound :: "'f Parser \<Rightarrow> string \<Rightarrow> bool" where
  "bound p tok \<longleftrightarrow> map_of (argData p) tok \<noteq> None"

definition bound_consuming :: "'f Parser \<Rightarrow> string \<Rightarrow> bool" where
  "bound_consuming p tok \<longleftrightarrow>
     (case map_of (argData p) tok of
        None \<Rightarrow> False
      | Some slot \<Rightarrow>
          (case types_of p slot of None \<Rightarrow> False | Some T \<Rightarrow> T \<noteq> T_bool \<and> T \<noteq> T_char))"

definition followed :: "(string \<Rightarrow> bool) \<Rightarrow> string list \<Rightarrow> bool" where
  "followed P argv \<longleftrightarrow> list_all (\<lambda>i. P (argv ! i) \<longrightarrow> i + 1 < length argv) [1..<length argv]"

definition in_bounds :: "string list \<Rightarrow> locals \<Rightarrow> bool" where
  "in_bounds argv l \<longleftrightarrow> list_all (\<lambda>k. 1 \<le> k \<and> k < length argv) (reads l)"


subsection \<open>Example parsers\<close>

text \<open>
  The parser of \<open>examples/simpleExample/main.cpp\<close>, with the default welcome message, and
  two parsers with required arguments and one with a character argument. The addresses
  of the slots are 0, 1 and 2. None of them has a floating-point slot, and \<open>no_strtof\<close>
  stands in for \<open>strtof\<close>.
\<close>

definition no_strtof :: "string \<Rightarrow> unit \<times> nat" where
  "no_strtof s = ((), 0)"


definition example_parser :: "unit Parser" where
  "example_parser =
     arg 2 ''num'' ''n'' (V_bool False) ''Print line numbers for the message.'' False
       (arg 1 ''times'' ''t'' (V_uint 1) ''The number of times the message is printed.'' False
          (arg 0 ''msg'' ''m'' (V_charp []) ''The message to print.'' True Parser_default))"

definition count_parser :: "unit Parser" where
  "count_parser =
     arg 1 ''file'' ''f'' (V_string []) ''The file.'' True
       (arg 0 ''count'' ''c'' (V_int 0) ''The count.'' True Parser_default)"

definition required_count :: "unit Parser" where
  "required_count = arg 0 ''count'' ''c'' (V_int 0) ''The count.'' True Parser_default"

definition char_parser :: "unit Parser" where
  "char_parser = arg 0 ''sep'' ''s'' (V_char CHR '','') ''The separator.'' False Parser_default"

section \<open>Lemmas\<close>

subsection \<open>The library functions on literals\<close>

lemma isdigit_not_isspace: "isdigit c \<Longrightarrow> \<not> isspace c"
  by (auto simp: isdigit_def isspace_def)

lemma isdigit_not_sign: "isdigit c \<Longrightarrow> c \<noteq> CHR ''-'' \<and> c \<noteq> CHR ''+''"
  by (auto simp: isdigit_def)

lemma sign_not_isspace: "\<not> isspace CHR ''-''" "\<not> isspace CHR ''+''"
  by (simp_all add: isspace_def)

lemma takeWhile_all: "list_all P xs \<Longrightarrow> takeWhile P xs = xs"
  by (induction xs) auto

lemma length_takeWhile_eq_iff: "length (takeWhile P xs) = length xs \<longleftrightarrow> list_all P xs"
  by (induction xs) (auto simp: le_Suc_eq dest: length_takeWhile_le[THEN le_trans])

lemma takeWhile_whole:
  "takeWhile P d \<noteq> [] \<and> length d \<le> length (takeWhile P d) \<longleftrightarrow> d \<noteq> [] \<and> list_all P d"
proof
  assume a: "takeWhile P d \<noteq> [] \<and> length d \<le> length (takeWhile P d)"
  then have "length (takeWhile P d) = length d"
    using length_takeWhile_le [of P d] by simp
  then have "list_all P d" by (simp add: length_takeWhile_eq_iff)
  moreover from a have "d \<noteq> []" by auto
  ultimately show "d \<noteq> [] \<and> list_all P d" by simp
next
  assume "d \<noteq> [] \<and> list_all P d"
  then show "takeWhile P d \<noteq> [] \<and> length d \<le> length (takeWhile P d)"
    by (simp add: takeWhile_all)
qed

lemma subject_consumed:
  "snd (snd (subject s)) \<noteq> 0 \<and> \<not> snd (snd (subject s)) < length s \<longleftrightarrow> int_token s"
proof -
  define ws where "ws = takeWhile isspace s"
  define r where "r = dropWhile isspace s"
  define sg :: nat
    where "sg = (case r of [] \<Rightarrow> 0 | c # _ \<Rightarrow> if c = CHR ''-'' \<or> c = CHR ''+'' then 1 else 0)"
  define d where "d = drop sg r"
  have len: "length s = length ws + length r"
    unfolding ws_def r_def by (metis length_append takeWhile_dropWhile_id)
  have sg: "sg \<le> length r" "length r = sg + length d"
    unfolding sg_def d_def by (auto split: list.splits)
  have d: "d = (case r of [] \<Rightarrow> [] | c # t \<Rightarrow> if c = CHR ''-'' \<or> c = CHR ''+'' then t else r)"
    unfolding d_def sg_def by (auto split: list.splits)
  have tok: "int_token s \<longleftrightarrow> d \<noteq> [] \<and> list_all isdigit d"
    unfolding int_token_def literal_def Let_def r_def[symmetric] d[symmetric] ..
  have e: "snd (snd (subject s)) =
             (if takeWhile isdigit d = [] then 0 else length ws + sg + length (takeWhile isdigit d))"
    unfolding subject_def Let_def ws_def[symmetric] r_def[symmetric] sg_def[symmetric] d_def[symmetric]
    by simp
  have "snd (snd (subject s)) \<noteq> 0 \<and> \<not> snd (snd (subject s)) < length s
          \<longleftrightarrow> takeWhile isdigit d \<noteq> [] \<and> length d \<le> length (takeWhile isdigit d)"
    using len sg by (auto simp: e)
  then show ?thesis
    by (simp add: tok takeWhile_whole)
qed

lemma literal_cases:
  assumes "literal s"
  obtains (signed) c t where "s = c # t" "c = CHR ''-'' \<or> c = CHR ''+''" "t \<noteq> []" "list_all isdigit t"
        | (unsigned) "s \<noteq> []" "list_all isdigit s"
proof (cases s)
  case Nil
  with assms show ?thesis by (simp add: literal_def)
next
  case (Cons c t)
  show ?thesis
  proof (cases "c = CHR ''-'' \<or> c = CHR ''+''")
    case True
    with assms Cons have "t \<noteq> []" "list_all isdigit t"
      by (simp_all add: literal_def)
    with Cons True show ?thesis by (rule signed)
  next
    case False
    with assms Cons have "list_all isdigit s"
      by (simp add: literal_def)
    with Cons show ?thesis by (intro unsigned) simp_all
  qed
qed

lemma digit_val_range: "isdigit c \<Longrightarrow> 0 \<le> digit_val c \<and> digit_val c \<le> 9"
  by (auto simp: isdigit_def digit_val_def)

lemma digits_val_nonneg: "list_all isdigit ds \<Longrightarrow> 0 \<le> digits_val ds"
proof -
  have "list_all isdigit ds \<Longrightarrow> 0 \<le> a \<Longrightarrow> 0 \<le> foldl (\<lambda>a c. 10 * a + digit_val c) a ds" for a
  proof (induction ds arbitrary: a)
    case Nil
    then show ?case by simp
  next
    case (Cons c ds)
    from Cons.prems have "0 \<le> 10 * a + digit_val c"
      using digit_val_range [of c] by simp
    with Cons show ?case by simp
  qed
  then show "list_all isdigit ds \<Longrightarrow> 0 \<le> digits_val ds" by (simp add: digits_val_def)
qed

lemma subject_unfold:
  "subject s =
     (if takeWhile isdigit (drop (case dropWhile isspace s of [] \<Rightarrow> 0
            | c # _ \<Rightarrow> if c = CHR ''-'' \<or> c = CHR ''+'' then 1 else 0) (dropWhile isspace s)) = []
      then (False, 0, 0)
      else (case dropWhile isspace s of [] \<Rightarrow> False | c # _ \<Rightarrow> c = CHR ''-'',
            digits_val (takeWhile isdigit (drop (case dropWhile isspace s of [] \<Rightarrow> 0
              | c # _ \<Rightarrow> if c = CHR ''-'' \<or> c = CHR ''+'' then 1 else 0) (dropWhile isspace s))),
            length (takeWhile isspace s)
            + (case dropWhile isspace s of [] \<Rightarrow> 0
               | c # _ \<Rightarrow> if c = CHR ''-'' \<or> c = CHR ''+'' then 1 else 0)
            + length (takeWhile isdigit (drop (case dropWhile isspace s of [] \<Rightarrow> 0
              | c # _ \<Rightarrow> if c = CHR ''-'' \<or> c = CHR ''+'' then 1 else 0) (dropWhile isspace s)))))"
  by (simp add: subject_def Let_def)

lemma subject_signed:
  assumes "c = CHR ''-'' \<or> c = CHR ''+''" "t \<noteq> []" "list_all isdigit t"
  shows "subject (c # t) = (c = CHR ''-'', digits_val t, Suc (length t))"
proof -
  have sp: "\<not> isspace c" using assms(1) sign_not_isspace by auto
  have tw: "takeWhile isdigit t = t" using assms(3) by (rule takeWhile_all)
  show ?thesis
    unfolding subject_unfold using sp assms(1,2) by (simp add: tw)
qed

lemma subject_unsigned:
  assumes "s \<noteq> []" "list_all isdigit s"
  shows "subject s = (False, digits_val s, length s)"
proof -
  obtain c t where s: "s = c # t" using assms(1) by (cases s) auto
  have c: "isdigit c" using assms(2) s by simp
  have sp: "\<not> isspace c" using c by (rule isdigit_not_isspace)
  have sg: "c \<noteq> CHR ''-''" "c \<noteq> CHR ''+''" using isdigit_not_sign [OF c] by auto
  have tw: "takeWhile isdigit (c # t) = c # t" using assms(2) s takeWhile_all by blast
  have dw: "dropWhile isspace (c # t) = c # t" "takeWhile isspace (c # t) = []"
    using sp by simp_all
  show ?thesis
    unfolding subject_unfold s dw using sg by (simp add: tw del: takeWhile.simps)
qed


lemma strtoul_literal:
  assumes "literal s" "\<bar>literal_value s\<bar> < 2 ^ 64"
  shows "strtoul s = (word_of_int (literal_value s), length s)"
  using assms(1)
proof (cases rule: literal_cases)
  case (signed c t)
  then show ?thesis
    using digits_val_nonneg [of t] assms(2)
    by (auto simp: strtoul_def subject_signed literal_value_def)
next
  case unsigned
  then obtain c t where s: "s = c # t" by (cases s) auto
  with unsigned have "c \<noteq> CHR ''-''" "c \<noteq> CHR ''+''" using isdigit_not_sign [of c] by auto
  with unsigned s show ?thesis
    using digits_val_nonneg [of s] assms(2)
    by (auto simp: strtoul_def subject_unsigned literal_value_def)
qed

lemma not_whole_strtol: "not_whole (snd (strtol s)) s \<longleftrightarrow> \<not> int_token s"
  using subject_consumed [of s]
  by (auto simp: not_whole_def strtol_def split: prod.splits)

lemma not_whole_strtoul: "not_whole (snd (strtoul s)) s \<longleftrightarrow> \<not> int_token s"
  using subject_consumed [of s]
  by (auto simp: not_whole_def strtoul_def split: prod.splits)

subsection \<open>Words\<close>



lemma uint_neg64: "uint (- word_of_int x :: 64 word) = (- x) mod 2 ^ 64"
proof -
  have "- word_of_int x = (word_of_int (- x) :: 64 word)" by simp
  then show ?thesis by (simp only: uint_word_of_int) simp
qed

lemma uint_ucast_64_32: "uint (ucast (w :: 64 word) :: 32 word) = uint w mod 2 ^ 32"
  by (simp add: unsigned_ucast_eq take_bit_eq_mod)

lemma uint_ucast_neg: "uint (ucast (- word_of_int x :: 64 word) :: 32 word) = (- x) mod 2 ^ 32"
proof -
  have "(2 ^ 32 :: int) dvd 2 ^ 64" by simp
  then show ?thesis
    unfolding uint_ucast_64_32 uint_neg64 by (rule mod_mod_cancel)
qed

subsection \<open>The conversions\<close>





lemma setValueChar_type:
  "setValueChar strtof a raw = Inr (r, a') \<Longrightarrow> getTypeInfo a' = getTypeInfo a"
  by (cases raw; cases "m_value a")
     (auto simp: getTypeInfo_def numeric_def split: if_splits)

lemmas evaluate =
  strtol_def strtoul_def subject_def isspace_def isdigit_def digits_val_def digit_val_def
  numeric_def not_whole_def literal_def literal_value_def int_token_def
  is_signed_def is_unsigned_def is_floating_def width_def in_range_def
  getTypeInfo_def TypeHandler_new_def quoted_def


subsection \<open>The conversions and the specification\<close>

lemma setValue_undefined:
  "ConvertFromText strtof (getTypeInfo a) raw = None \<Longrightarrow> setValue strtof a raw = Inl NullDereference"
  by (cases raw; cases "m_value a")
     (auto simp: setValue_def getTypeInfo_def is_signed_def is_unsigned_def is_floating_def)

lemma setValue_defined:
  assumes "ConvertFromText strtof (getTypeInfo a) raw = Some sg"
  shows "\<exists>a'. setValue strtof a raw = Inr (signal_code sg, a') \<and> m_set a'
           \<and> m_required a' = m_required a \<and> m_helpMsg a' = m_helpMsg a
           \<and> getTypeInfo a' = getTypeInfo a
           \<and> m_errorMsg a' = (case sg of Failed e \<Rightarrow> e | _ \<Rightarrow> m_errorMsg a)
           \<and> (\<forall>b. m_value a = V_bool b \<longrightarrow> m_value a' = V_bool (\<not> b))"
  using assms
  by (cases raw; cases "m_value a")
     (auto simp: setValue_def getTypeInfo_def is_signed_def is_unsigned_def is_floating_def
        numeric_def not_whole_strtol not_whole_strtoul split: if_splits)

subsection \<open>The loop simulates the scan of the specification\<close>

text \<open>
  \<open>effect ev s s'\<close> relates the parser and the locals before and after the iteration that
  the event \<open>ev\<close> describes, and \<open>run\<close> chains the effects of a list of events.
\<close>

definition effect :: "event \<Rightarrow> 'f Parser \<times> locals \<Rightarrow> 'f Parser \<times> locals \<Rightarrow> bool" where
  "effect ev s s' \<longleftrightarrow>
     (case s of (p, l) \<Rightarrow> case s' of (p', l') \<Rightarrow>
        argData p' = argData p \<and> HelpEnabled p' = HelpEnabled p
        \<and> AllowUnknownArguments p' = AllowUnknownArguments p
        \<and> WelcomeMessage p' = WelcomeMessage p
        \<and> p_errorMsg p' =
            (case error_line (AllowUnknownArguments p) ev of
               None \<Rightarrow> p_errorMsg p
             | Some line \<Rightarrow> append_line (p_errorMsg p) line)
        \<and> error l' = (error l \<or> error_line (AllowUnknownArguments p) ev \<noteq> None)
        \<and> out_arg l' = map_option (\<lambda>v. v @ unmatched [ev]) (out_arg l)
        \<and> reads l' = reads l @ event_reads ev
        \<and> (case ev of
              Unknown_argument i tok \<Rightarrow> heap p' = heap p
            | Converted i tok ptr sg \<Rightarrow>
                (\<exists>a a'. heap p ptr = Some a \<and> heap p' = (heap p)(ptr \<mapsto> a') \<and> m_set a'
                   \<and> m_required a' = m_required a \<and> m_helpMsg a' = m_helpMsg a
                   \<and> getTypeInfo a' = getTypeInfo a
                   \<and> (\<forall>b. m_value a = V_bool b \<longrightarrow> m_value a' = V_bool (\<not> b)))))"

inductive run :: "event list \<Rightarrow> 'f Parser \<times> locals \<Rightarrow> 'f Parser \<times> locals \<Rightarrow> bool" where
  run_Nil: "run [] s s"
| run_Cons: "effect ev s s1 \<Longrightarrow> run evs s1 s2 \<Longrightarrow> run (ev # evs) s s2"

lemma step_effect:
  assumes "i < length argv" and "step strtof argv i (p, l) = Inr (i', p', l')"
  shows "\<exists>ev. spec_scan strtof (argData p) (types_of p) argv i
                = ev # spec_scan strtof (argData p) (types_of p) argv i'
              \<and> effect ev (p, l) (p', l')"
proof (cases "map_of (argData p) (argv ! i)")
  case None
  with assms show ?thesis
    by (subst spec_scan.simps)
       (auto simp: step_def Let_def effect_def unmatched_def split: if_splits)
next
  case (Some ptr)
  with assms(2) obtain a where a: "heap p ptr = Some a"
    by (auto simp: step_def Let_def split: option.splits)
  show ?thesis
  proof (cases "ConvertFromText strtof (getTypeInfo a) (argv_at argv (i + 1))")
    case None
    from setValue_undefined [OF this] assms(2) Some a show ?thesis
      by (simp add: step_def Let_def)
  next
    case sg: (Some sg)
    from setValue_defined [OF this] obtain a' where
      a': "setValue strtof a (argv_at argv (i + 1)) = Inr (signal_code sg, a')" "m_set a'"
        "m_required a' = m_required a" "m_helpMsg a' = m_helpMsg a" "getTypeInfo a' = getTypeInfo a"
        "m_errorMsg a' = (case sg of Failed e \<Rightarrow> e | _ \<Rightarrow> m_errorMsg a)"
        "\<forall>b. m_value a = V_bool b \<longrightarrow> m_value a' = V_bool (\<not> b)"
      by blast
    have ss: "spec_scan strtof (argData p) (types_of p) argv i
                = Converted i (argv ! i) ptr sg # spec_scan strtof (argData p) (types_of p) argv (i + advance sg)"
      using assms(1) Some a sg by (subst spec_scan.simps) (simp add: types_of_def)
    from assms(2) Some a a' have "i' = i + advance sg \<and> effect (Converted i (argv ! i) ptr sg) (p, l) (p', l')"
      by (cases sg)
         (auto simp: step_def Let_def effect_def unmatched_def
            option.map_ident)
    with ss show ?thesis by auto
  qed
qed

lemma effect_types:
  assumes "effect ev (p, l) (p', l')"
  shows "types_of p' = types_of p"
proof (rule ext)
  fix q
  show "types_of p' q = types_of p q"
    using assms by (cases ev) (auto simp: effect_def types_of_def split: if_splits)
qed

lemma effect_argData: "effect ev (p, l) (p', l') \<Longrightarrow> argData p' = argData p"
  by (simp add: effect_def)

lemma scan_run:
  "scan strtof argv i s = Inr s' \<Longrightarrow>
     run (spec_scan strtof (argData (fst s)) (types_of (fst s)) argv i) s s'"
proof (induction strtof argv i s rule: scan.induct)
  case (1 strtof argv i pl)
  obtain p l where pl: "pl = (p, l)" by (cases pl)
  show ?case
  proof (cases "i < length argv")
    case False
    with "1.prems" show ?thesis
      by (subst spec_scan.simps) (simp add: scan.simps run_Nil)
  next
    case True
    with "1.prems" obtain i' p1 l1 where
      st: "step strtof argv i pl = Inr (i', p1, l1)" and sc: "scan strtof argv i' (p1, l1) = Inr s'"
      by (subst (asm) scan.simps) (auto split: sum.splits)
    from step_effect [OF True st [unfolded pl]] obtain ev where
      ev: "spec_scan strtof (argData p) (types_of p) argv i
             = ev # spec_scan strtof (argData p) (types_of p) argv i'"
        "effect ev (p, l) (p1, l1)"
      by blast
    from "1.IH" [OF True st refl sc]
    have "run (spec_scan strtof (argData p1) (types_of p1) argv i') (p1, l1) s'"
      by simp
    then have "run (spec_scan strtof (argData p) (types_of p) argv i') (p1, l1) s'"
      by (simp add: effect_types [OF ev(2)] effect_argData [OF ev(2)])
    with ev show ?thesis
      by (simp add: pl run_Cons)
  qed
qed

subsection \<open>What a run leaves behind\<close>

lemma join_snoc: "join sep (xs @ [x]) = (if xs = [] then x else join sep xs @ sep @ x)"
  by (induction sep xs rule: join.induct) auto

lemma join_Nil_iff: "\<forall>x\<in>set xs. x \<noteq> [] \<Longrightarrow> join sep xs = [] \<longleftrightarrow> xs = []"
  by (induction sep xs rule: join.induct) auto

lemma foldl_append_line:
  assumes "\<forall>x\<in>set xs. x \<noteq> []" "\<forall>x\<in>set ys. x \<noteq> []"
  shows "foldl append_line (join [CHR 0x0A] xs) ys = join [CHR 0x0A] (xs @ ys)"
  using assms
proof (induction ys arbitrary: xs)
  case Nil
  then show ?case by simp
next
  case (Cons y ys)
  have "append_line (join [CHR 0x0A] xs) y = join [CHR 0x0A] (xs @ [y])"
    using Cons.prems(1) by (simp add: append_line_def join_snoc join_Nil_iff)
  moreover have "foldl append_line (join [CHR 0x0A] (xs @ [y])) ys = join [CHR 0x0A] ((xs @ [y]) @ ys)"
    using Cons.prems by (intro Cons.IH) auto
  ultimately show ?case by simp
qed

lemma error_line_nonempty: "error_line allow ev = Some line \<Longrightarrow> line \<noteq> []"
  by (cases "(allow, ev)" rule: error_line.cases) (auto split: if_splits)

lemma error_lines_nonempty: "\<forall>x\<in>set (error_lines allow evs). x \<noteq> []"
  by (auto simp: error_lines_def List.map_filter_def dest: error_line_nonempty)

lemma error_lines_Cons:
  "error_lines allow (ev # evs) =
     (case error_line allow ev of None \<Rightarrow> error_lines allow evs
      | Some line \<Rightarrow> line # error_lines allow evs)"
  by (simp add: error_lines_def split: option.splits)

lemma run_frame:
  "run evs s s' \<Longrightarrow>
     argData (fst s') = argData (fst s) \<and> HelpEnabled (fst s') = HelpEnabled (fst s)
     \<and> AllowUnknownArguments (fst s') = AllowUnknownArguments (fst s)
     \<and> WelcomeMessage (fst s') = WelcomeMessage (fst s)
     \<and> types_of (fst s') = types_of (fst s)"
proof (induction rule: run.induct)
  case (run_Nil s)
  then show ?case by simp
next
  case (run_Cons ev s s1 evs s2)
  from run_Cons.hyps(1) have "types_of (fst s1) = types_of (fst s)"
    using effect_types [of ev "fst s" "snd s" "fst s1" "snd s1"] by simp
  with run_Cons show ?case
    by (auto simp: effect_def split: prod.splits)
qed

lemma run_errors:
  "run evs s s' \<Longrightarrow>
     p_errorMsg (fst s')
       = foldl append_line (p_errorMsg (fst s)) (error_lines (AllowUnknownArguments (fst s)) evs)
     \<and> error (snd s') = (error (snd s) \<or> error_lines (AllowUnknownArguments (fst s)) evs \<noteq> [])"
proof (induction rule: run.induct)
  case (run_Nil s)
  then show ?case by (simp add: error_lines_def)
next
  case (run_Cons ev s s1 evs s2)
  from run_Cons.hyps(1) have "AllowUnknownArguments (fst s1) = AllowUnknownArguments (fst s)"
    by (auto simp: effect_def split: prod.splits)
  with run_Cons show ?case
    by (auto simp: effect_def error_lines_Cons split: prod.splits option.splits)
qed

lemma run_out:
  "run evs s s' \<Longrightarrow> out_arg (snd s') = map_option (\<lambda>v. v @ unmatched evs) (out_arg (snd s))"
proof (induction rule: run.induct)
  case (run_Nil s)
  then show ?case by (simp add: unmatched_def option.map_ident)
next
  case (run_Cons ev s s1 evs s2)
  then show ?case
    by (cases ev)
       (auto simp: effect_def unmatched_def option.map_comp comp_def
          split: prod.splits)
qed

lemma run_reads:
  "run evs s s' \<Longrightarrow> reads (snd s') = reads (snd s) @ concat (map event_reads evs)"
proof (induction rule: run.induct)
  case (run_Nil s)
  then show ?case by simp
next
  case (run_Cons ev s s1 evs s2)
  then show ?case
    by (auto simp: effect_def split: prod.splits)
qed

lemma converted_slots_Cons:
  "converted_slots (ev # evs) =
     (case ev of Converted i tok slot sg \<Rightarrow> slot # converted_slots evs
      | Unknown_argument i tok \<Rightarrow> converted_slots evs)"
  by (cases ev) (simp_all add: converted_slots_def)

lemma effect_heap_other:
  "effect ev (p, l) (p', l') \<Longrightarrow> ptr \<notin> set (converted_slots [ev]) \<Longrightarrow> heap p' ptr = heap p ptr"
  by (cases ev) (auto simp: effect_def converted_slots_Cons)

lemma effect_heap_slot:
  "effect (Converted i tok ptr sg) (p, l) (p', l') \<Longrightarrow>
     \<exists>a a'. heap p ptr = Some a \<and> heap p' ptr = Some a' \<and> m_set a'
        \<and> m_required a' = m_required a \<and> m_helpMsg a' = m_helpMsg a
        \<and> getTypeInfo a' = getTypeInfo a
        \<and> (\<forall>b. m_value a = V_bool b \<longrightarrow> m_value a' = V_bool (\<not> b))"
  by (auto simp: effect_def)

lemma run_heap_None:
  "run evs s s' \<Longrightarrow> heap (fst s) ptr = None \<Longrightarrow> heap (fst s') ptr = None"
proof (induction rule: run.induct)
  case (run_Nil s)
  then show ?case by simp
next
  case (run_Cons ev s s1 evs s2)
  obtain p l p1 l1 where s: "s = (p, l)" "s1 = (p1, l1)" by (cases s; cases s1) auto
  have "ptr \<notin> set (converted_slots [ev])"
  proof (cases ev)
    case (Unknown_argument i tok)
    then show ?thesis by (simp add: converted_slots_Cons converted_slots_def)
  next
    case (Converted i tok slot sg)
    with run_Cons.hyps(1) s have "heap p slot \<noteq> None"
      using effect_heap_slot [of i tok slot sg p l p1 l1] by auto
    with run_Cons.prems s Converted show ?thesis
      by (auto simp: converted_slots_Cons converted_slots_def)
  qed
  with run_Cons.hyps(1) run_Cons.prems s have "heap (fst s1) ptr = None"
    using effect_heap_other [of ev p l p1 l1 ptr] by simp
  then show ?case by (rule run_Cons.IH)
qed

lemma converted_slots_Nil: "converted_slots [] = []"
  by (simp add: converted_slots_def)

lemma run_heap_Some:
  "run evs s s' \<Longrightarrow> heap (fst s) ptr = Some a \<Longrightarrow>
     \<exists>a'. heap (fst s') ptr = Some a' \<and> m_required a' = m_required a
        \<and> m_helpMsg a' = m_helpMsg a \<and> getTypeInfo a' = getTypeInfo a
        \<and> (m_set a' \<longleftrightarrow> m_set a \<or> ptr \<in> set (converted_slots evs))
        \<and> (\<forall>b. m_value a = V_bool b \<longrightarrow>
              m_value a' = V_bool (if even (count_list (converted_slots evs) ptr) then b else \<not> b))"
proof (induction arbitrary: a rule: run.induct)
  case (run_Nil s)
  then show ?case by (simp add: converted_slots_Nil)
next
  case (run_Cons ev s s1 evs s2)
  obtain p l p1 l1 where s: "s = (p, l)" "s1 = (p1, l1)" by (cases s; cases s1) auto
  show ?case
  proof (cases "ptr \<in> set (converted_slots [ev])")
    case False
    with run_Cons.hyps(1) run_Cons.prems s have "heap (fst s1) ptr = Some a"
      using effect_heap_other [of ev p l p1 l1 ptr] by simp
    from run_Cons.IH [OF this] False show ?thesis
      by (cases ev) (auto simp: converted_slots_Cons converted_slots_Nil)
  next
    case True
    then obtain i tok sg where ev: "ev = Converted i tok ptr sg"
      by (cases ev) (auto simp: converted_slots_Cons converted_slots_Nil)
    from run_Cons.hyps(1) run_Cons.prems s ev obtain a1 where
      a1: "heap (fst s1) ptr = Some a1" "m_set a1" "m_required a1 = m_required a"
        "m_helpMsg a1 = m_helpMsg a" "getTypeInfo a1 = getTypeInfo a"
        "\<forall>b. m_value a = V_bool b \<longrightarrow> m_value a1 = V_bool (\<not> b)"
      using effect_heap_slot [of i tok ptr sg p l p1 l1] by auto
    from run_Cons.IH [OF a1(1)] obtain a' where
      a': "heap (fst s2) ptr = Some a'" "m_required a' = m_required a1"
        "m_helpMsg a' = m_helpMsg a1" "getTypeInfo a' = getTypeInfo a1"
        "m_set a' \<longleftrightarrow> m_set a1 \<or> ptr \<in> set (converted_slots evs)"
        "\<forall>b. m_value a1 = V_bool b \<longrightarrow>
              m_value a' = V_bool (if even (count_list (converted_slots evs) ptr) then b else \<not> b)"
      by blast
    have "\<forall>b. m_value a = V_bool b \<longrightarrow>
              m_value a' = V_bool (if even (count_list (converted_slots (ev # evs)) ptr) then b else \<not> b)"
      using a1(6) a'(6) ev by (auto simp: converted_slots_Cons)
    with a' a1 ev show ?thesis
      by (auto simp: converted_slots_Cons)
  qed
qed

lemma spec_scan_events:
  "ev \<in> set (spec_scan strtof m ty argv i) \<Longrightarrow>
     (case ev of
        Unknown_argument j tok \<Rightarrow> i \<le> j \<and> j < length argv \<and> tok = argv ! j \<and> map_of m tok = None
      | Converted j tok ptr sg \<Rightarrow>
          i \<le> j \<and> j < length argv \<and> tok = argv ! j \<and> map_of m tok = Some ptr
          \<and> (\<exists>T. ty ptr = Some T \<and> ConvertFromText strtof T (argv_at argv (j + 1)) = Some sg))"
proof (induction strtof m ty argv i rule: spec_scan.induct)
  case (1 strtof m ty argv i)
  show ?case
  proof (cases "i < length argv")
    case False
    with "1.prems" show ?thesis by (subst (asm) spec_scan.simps) simp
  next
    case True
    show ?thesis
    proof (cases "map_of m (argv ! i)")
      case None
      with True "1.prems" consider "ev = Unknown_argument i (argv ! i)"
        | "ev \<in> set (spec_scan strtof m ty argv (i + 1))"
        by (subst (asm) spec_scan.simps) auto
      then show ?thesis
      proof cases
        case 1
        with True None show ?thesis by simp
      next
        case 2
        from "1.IH"(1) [OF True None 2] show ?thesis
          by (cases ev) auto
      qed
    next
      case (Some ptr)
      show ?thesis
      proof (cases "ty ptr")
        case None
        with True Some "1.prems" show ?thesis by (subst (asm) spec_scan.simps) simp
      next
        case T: (Some T)
        show ?thesis
        proof (cases "ConvertFromText strtof T (argv_at argv (i + 1))")
          case None
          with True Some T "1.prems" show ?thesis by (subst (asm) spec_scan.simps) simp
        next
          case sg: (Some sg)
          with True Some T "1.prems" consider "ev = Converted i (argv ! i) ptr sg"
            | "ev \<in> set (spec_scan strtof m ty argv (i + advance sg))"
            by (subst (asm) spec_scan.simps) auto
          then show ?thesis
          proof cases
            case 1
            with True Some T sg show ?thesis by simp
          next
            case 2
            from "1.IH"(2) [OF True Some T sg 2] show ?thesis
              by (cases ev) auto
          qed
        qed
      qed
    qed
  qed
qed

subsection \<open>The loop over the required slots\<close>

lemma map_modify_keys: "fst ` set (map_modify k f m) = insert k (fst ` set m)"
proof (induction m)
  case Nil
  then show ?case by simp
next
  case (Cons kv m)
  obtain k' v where kv: "kv = (k', v)" by (cases kv)
  show ?case
    by (cases "k < k'"; cases "k = k'") (use Cons.IH in \<open>auto simp: kv\<close>)
qed

lemma map_modify_sorted:
  "sorted_wrt (<) (map fst m) \<Longrightarrow> sorted_wrt (<) (map fst (map_modify k f m))"
proof (induction m)
  case Nil
  then show ?case by simp
next
  case (Cons kv m)
  obtain k' v where kv: "kv = (k', v)" by (cases kv)
  from Cons.prems have m: "sorted_wrt (<) (map fst m)" and lt: "\<forall>x\<in>set (map fst m). k' < x"
    by (simp_all add: kv)
  show ?case
  proof (cases "k < k'")
    case True
    with Cons.prems lt show ?thesis by (auto simp: kv)
  next
    case False
    show ?thesis
    proof (cases "k = k'")
      case True
      with Cons.prems show ?thesis by (simp add: kv)
    next
      case ne: False
      with False have "k' < k" by simp
      with lt have "\<forall>y\<in>fst ` set (map_modify k f m). k' < y"
        unfolding map_modify_keys by auto
      then have "\<forall>x\<in>set (map_modify k f m). k' < fst x" by auto
      with False ne Cons.IH [OF m] show ?thesis by (simp add: kv)
    qed
  qed
qed

lemma map_modify_map_of:
  "sorted_wrt (<) (map fst m) \<Longrightarrow>
     map_of (map_modify k f m) = (map_of m)(k \<mapsto> f (map_of m k))"
proof (induction m)
  case Nil
  then show ?case by simp
next
  case (Cons kv m)
  obtain k' v where kv: "kv = (k', v)" by (cases kv)
  from Cons.prems have m: "sorted_wrt (<) (map fst m)" and lt: "\<forall>x\<in>set (map fst m). k' < x"
    by (simp_all add: kv)
  show ?case
  proof (cases "k < k'")
    case True
    then have "k \<notin> set (map fst m)" using lt by auto
    then have "map_of m k = None" by (simp add: map_of_eq_None_iff)
    with True show ?thesis by (auto simp: kv fun_eq_iff)
  next
    case False
    show ?thesis
    proof (cases "k = k'")
      case True
      then show ?thesis by (auto simp: kv fun_eq_iff)
    next
      case ne: False
      with False Cons.IH [OF m] show ?thesis by (auto simp: kv fun_eq_iff)
    qed
  qed
qed

definition accumulate :: "string option \<Rightarrow> string list \<Rightarrow> string option" where
  "accumulate old names =
     foldl (\<lambda>old name. Some (case old of None \<Rightarrow> name | Some s \<Rightarrow> s @ '' or '' @ name)) old names"

lemma accumulate_Some:
  "accumulate (Some s) names = Some (join '' or '' (s # names))"
proof (induction names arbitrary: s)
  case Nil
  then show ?case by (simp add: accumulate_def)
next
  case (Cons n names)
  have "accumulate (Some s) (n # names) = accumulate (Some (s @ '' or '' @ n)) names"
    by (simp add: accumulate_def)
  also have "\<dots> = Some (join '' or '' ((s @ '' or '' @ n) # names))" by (rule Cons.IH)
  also have "join '' or '' ((s @ '' or '' @ n) # names) = join '' or '' (s # n # names)"
    by (cases names) simp_all
  finally show ?case .
qed

lemma accumulate_None:
  "accumulate None names = (if names = [] then None else Some (join '' or '' names))"
proof (cases names)
  case Nil
  then show ?thesis by (simp add: accumulate_def)
next
  case (Cons n ns)
  have "accumulate None (n # ns) = accumulate (Some n) ns" by (simp add: accumulate_def)
  with Cons show ?thesis by (simp add: accumulate_Some)
qed

lemma accumulate_Cons:
  "accumulate old (n # names)
     = accumulate (Some (case old of None \<Rightarrow> n | Some s \<Rightarrow> s @ '' or '' @ n)) names"
  by (simp add: accumulate_def)

lemma required_loop_acc:
  assumes "\<forall>b\<in>set m. h (snd b) \<noteq> None" "sorted_wrt (<) (map fst rs)"
  shows "\<exists>rs'. required_loop h m (e, rs) = Inr (e \<or> (\<exists>b\<in>set m. is_missing h (snd b)), rs')
           \<and> sorted_wrt (<) (map fst rs')
           \<and> fst ` set rs' = fst ` set rs \<union> {q \<in> snd ` set m. is_missing h q}
           \<and> (\<forall>q. map_of rs' q
                   = accumulate (map_of rs q) (if is_missing h q then names_of m q else []))"
  using assms
proof (induction m arbitrary: e rs)
  case Nil
  then show ?case by (simp add: accumulate_def names_of_def)
next
  case (Cons b m)
  obtain name ptr where b: "b = (name, ptr)" by (cases b)
  from Cons.prems(1) obtain a where a: "h ptr = Some a" by (auto simp: b)
  from Cons.prems(1) have m: "\<forall>b\<in>set m. h (snd b) \<noteq> None" by simp
  show ?case
  proof (cases "is_missing h ptr")
    case False
    with a have step: "required_loop h (b # m) (e, rs) = required_loop h m (e, rs)"
      by (auto simp: b is_missing_def)
    from Cons.IH [OF m Cons.prems(2), of e] obtain rs' where
      r: "required_loop h m (e, rs) = Inr (e \<or> (\<exists>b\<in>set m. is_missing h (snd b)), rs')"
        "sorted_wrt (<) (map fst rs')"
        "fst ` set rs' = fst ` set rs \<union> {q \<in> snd ` set m. is_missing h q}"
        "\<forall>q. map_of rs' q = accumulate (map_of rs q) (if is_missing h q then names_of m q else [])"
      by blast
    have 4: "\<forall>q. map_of rs' q
            = accumulate (map_of rs q) (if is_missing h q then names_of (b # m) q else [])"
      using r(4) False by (auto simp: names_of_def b)
    have 3: "fst ` set rs' = fst ` set rs \<union> {q \<in> snd ` set (b # m). is_missing h q}"
      using r(3) False by (auto simp: b)
    have e: "(e \<or> (\<exists>b\<in>set (b # m). is_missing h (snd b))) = (e \<or> (\<exists>b\<in>set m. is_missing h (snd b)))"
      using False by (simp add: b)
    show ?thesis
      unfolding step e using r(1,2) 3 4 by blast
  next
    case True
    let ?f = "\<lambda>old. case old of None \<Rightarrow> name | Some s \<Rightarrow> s @ '' or '' @ name"
    let ?rs1 = "map_modify ptr ?f rs"
    from True a have step: "required_loop h (b # m) (e, rs) = required_loop h m (True, ?rs1)"
      by (simp add: b is_missing_def cong: option.case_cong)
    have s1: "sorted_wrt (<) (map fst ?rs1)"
      using Cons.prems(2) by (rule map_modify_sorted)
    from Cons.IH [OF m s1, of True] obtain rs' where
      r: "required_loop h m (True, ?rs1) = Inr (True, rs')"
        "sorted_wrt (<) (map fst rs')"
        "fst ` set rs' = fst ` set ?rs1 \<union> {q \<in> snd ` set m. is_missing h q}"
        "\<forall>q. map_of rs' q = accumulate (map_of ?rs1 q) (if is_missing h q then names_of m q else [])"
      by auto
    have mo: "map_of ?rs1 = (map_of rs)(ptr \<mapsto> ?f (map_of rs ptr))"
      using Cons.prems(2) by (rule map_modify_map_of)
    have 4: "map_of rs' q
            = accumulate (map_of rs q) (if is_missing h q then names_of (b # m) q else [])" for q
    proof (cases "q = ptr")
      case True
      with r(4) mo \<open>is_missing h ptr\<close> show ?thesis
        by (simp add: names_of_def b accumulate_Cons)
    next
      case False
      with r(4) mo show ?thesis
        by (simp add: names_of_def b)
    qed
    have 3: "fst ` set rs' = fst ` set rs \<union> {q \<in> snd ` set (b # m). is_missing h q}"
      using r(3) True by (auto simp: b map_modify_keys)
    have e: "(e \<or> (\<exists>b\<in>set (b # m). is_missing h (snd b))) = True"
      using True by (simp add: b)
    show ?thesis
      unfolding step e using r(1,2) 3 4 by blast
  qed
qed


lemma assoc_by_keys:
  "distinct (map fst xs) \<Longrightarrow> xs = map (\<lambda>k. (k, the (map_of xs k))) (map fst xs)"
proof (induction xs)
  case Nil
  then show ?case by simp
next
  case (Cons kv xs)
  obtain k v where kv: "kv = (k, v)" by (cases kv)
  from Cons.prems have d: "distinct (map fst xs)" and k: "k \<notin> fst ` set xs"
    by (simp_all add: kv)
  have "map (\<lambda>k'. (k', the (map_of (kv # xs) k'))) (map fst xs)
          = map (\<lambda>k'. (k', the (map_of xs k'))) (map fst xs)"
    using k by (intro map_cong) (auto simp: kv)
  with Cons.IH [OF d] show ?case by (simp add: kv)
qed

lemma missing_sorted: "sorted_wrt (<) (missing m h)"
  by (simp add: missing_def strict_sorted_iff sorted_filter[where f = "\<lambda>x. x", simplified])

lemma set_missing: "set (missing m h) = {q \<in> snd ` set m. is_missing h q}"
  by (auto simp: missing_def)

lemma names_of_nonempty: "q \<in> snd ` set m \<Longrightarrow> names_of m q \<noteq> []"
  by (auto simp: names_of_def filter_empty_conv)

lemma required_loop_result:
  assumes "\<forall>b\<in>set m. h (snd b) \<noteq> None"
  shows "required_loop h m (e, [])
           = Inr (e \<or> missing m h \<noteq> [], map (\<lambda>q. (q, label m q)) (missing m h))"
proof -
  from required_loop_acc [OF assms, of "[]" e] obtain rs' where
    r: "required_loop h m (e, []) = Inr (e \<or> (\<exists>b\<in>set m. is_missing h (snd b)), rs')"
      "sorted_wrt (<) (map fst rs')"
      "fst ` set rs' = {q \<in> snd ` set m. is_missing h q}"
      "\<forall>q. map_of rs' q = accumulate None (if is_missing h q then names_of m q else [])"
    by auto
  have keys: "map fst rs' = missing m h"
    using r(2) missing_sorted [of m h] r(3) set_missing [of m h]
    by (intro strict_sorted_equal) auto
  have d: "distinct (map fst rs')"
    using r(2) by (simp add: strict_sorted_iff)
  have "rs' = map (\<lambda>k. (k, the (map_of rs' k))) (missing m h)"
    using assoc_by_keys [OF d] keys by simp
  also have "\<dots> = map (\<lambda>q. (q, label m q)) (missing m h)"
  proof (intro map_cong refl)
    fix q assume "q \<in> set (missing m h)"
    then have "is_missing h q" "names_of m q \<noteq> []"
      by (auto simp: set_missing names_of_nonempty)
    with r(4) show "(q, the (map_of rs' q)) = (q, label m q)"
      by (simp add: accumulate_None label_def)
  qed
  finally have rs': "rs' = map (\<lambda>q. (q, label m q)) (missing m h)" .
  have "(\<exists>b\<in>set m. is_missing h (snd b)) \<longleftrightarrow> missing m h \<noteq> []"
    using set_missing [of m h] by (auto simp: set_empty [symmetric] simp del: set_empty)
  with r(1) rs' show ?thesis by simp
qed

lemma required_loop_no_dangling:
  "required_loop h m er = Inr r \<Longrightarrow> \<forall>b\<in>set m. h (snd b) \<noteq> None"
proof (induction m arbitrary: er)
  case Nil
  then show ?case by simp
next
  case (Cons b m)
  obtain name ptr e rs where b: "b = (name, ptr)" "er = (e, rs)" by (cases b; cases er) auto
  from Cons.prems obtain a where a: "h ptr = Some a"
    by (auto simp: b split: option.splits)
  from Cons.prems a obtain er' where "required_loop h m er' = Inr r"
    by (auto simp: b split: if_splits)
  from Cons.IH [OF this] a show ?case by (simp add: b)
qed

lemma foldl_append_snd:
  "foldl (\<lambda>m pair. m @ snd pair @ sep) m1 rs = m1 @ concat (map (\<lambda>x. snd x @ sep) rs)"
  by (induction rs arbitrary: m1) simp_all

lemma concat_join:
  "xs \<noteq> [] \<Longrightarrow> concat (map (\<lambda>x. x @ sep) xs) = join sep xs @ sep"
  by (induction sep xs rule: join.induct) simp_all

lemma report_required_eq:
  "report_required e rs msg =
     (if e \<and> rs \<noteq> []
      then append_line msg (''The following required arguments was not set: ''
                              @ join '', '' (map snd rs))
      else msg)"
proof (cases "e \<and> rs \<noteq> []")
  case False
  then show ?thesis by (auto simp: report_required_def)
next
  case True
  then have "map snd rs \<noteq> []" by simp
  from concat_join [OF this, of "'', ''"]
  have "concat (map (\<lambda>x. snd x @ '', '') rs) = join '', '' (map snd rs) @ '', ''"
    by (simp add: comp_def)
  with True show ?thesis
    by (simp add: report_required_def Let_def foldl_append_snd append_line_def)
qed

subsection \<open>The results of \<open>parse\<close>\<close>

lemma types_of_errorMsg [simp]: "types_of (p\<lparr>p_errorMsg := m\<rparr>) = types_of p"
  by (rule ext) (simp add: types_of_def)

lemma parse_help:
  assumes "help_requested p argv"
  shows "parse strtof p argv out =
       (case GetHelpMessage (p\<lparr>p_errorMsg := []\<rparr>) of
          Inl u \<Rightarrow> Undefined u
        | Inr text \<Rightarrow> Exit 0 text (locals0 p argv out))"
proof -
  have h: "HelpEnabled (p\<lparr>p_errorMsg := []\<rparr>) = HelpEnabled p" by simp
  show ?thesis
    unfolding parse_def Let_def locals0_def h if_P [OF assms [unfolded help_requested_def]] ..
qed

lemma parse_scan:
  assumes "\<not> help_requested p argv"
  shows "parse strtof p argv out =
       (case scan strtof argv 1 (p\<lparr>p_errorMsg := []\<rparr>, locals0 p argv out) of
          Inl u \<Rightarrow> Undefined u
        | Inr (p1, l1) \<Rightarrow>
            (case required_loop (heap p1) (argData p1) (error l1, []) of
               Inl u \<Rightarrow> Undefined u
             | Inr (e, ReqSorter) \<Rightarrow>
                 Returned (\<not> e) (p1\<lparr>p_errorMsg := report_required e ReqSorter (p_errorMsg p1)\<rparr>) l1))"
proof -
  have h: "HelpEnabled (p\<lparr>p_errorMsg := []\<rparr>) = HelpEnabled p" by simp
  show ?thesis
    unfolding parse_def Let_def locals0_def h if_not_P [OF assms [unfolded help_requested_def]] ..
qed

lemma parse_Returned:
  assumes "parse strtof p argv out = Returned ok p' l'"
  shows "\<exists>p1. \<not> help_requested p argv
           \<and> run (events strtof p argv) (p\<lparr>p_errorMsg := []\<rparr>, locals0 p argv out) (p1, l')
           \<and> p' = p1\<lparr>p_errorMsg := report (AllowUnknownArguments p) (events strtof p argv)
                                       (argData p) (heap p1)\<rparr>
           \<and> (ok \<longleftrightarrow> error_lines (AllowUnknownArguments p) (events strtof p argv) = []
                     \<and> missing (argData p) (heap p1) = [])
           \<and> (\<forall>b\<in>set (argData p). heap p1 (snd b) \<noteq> None)"
proof -
  let ?p0 = "p\<lparr>p_errorMsg := []\<rparr>"
  let ?l0 = "locals0 p argv out"
  let ?evs = "events strtof p argv"
  let ?allow = "AllowUnknownArguments p"
  have nh: "\<not> help_requested p argv"
  proof
    assume "help_requested p argv"
    from parse_help [OF this, of strtof out] assms show False
      by (simp split: sum.splits)
  qed
  note ps = parse_scan [OF nh, of strtof out]
  from ps assms obtain p1 l1 where sc: "scan strtof argv 1 (?p0, ?l0) = Inr (p1, l1)"
    by (cases "scan strtof argv 1 (?p0, ?l0)") auto
  from ps assms sc obtain e rs where
    rl: "required_loop (heap p1) (argData p1) (error l1, []) = Inr (e, rs)"
    by (cases "required_loop (heap p1) (argData p1) (error l1, [])") auto
  from ps assms sc rl have
    res: "ok = (\<not> e)" "p' = p1\<lparr>p_errorMsg := report_required e rs (p_errorMsg p1)\<rparr>" "l' = l1"
    by simp_all
  from scan_run [OF sc] have run: "run ?evs (?p0, ?l0) (p1, l1)"
    by (simp add: events_def)
  from run_frame [OF run] have fr: "argData p1 = argData p"
    by simp
  from run_errors [OF run] have
    msg: "p_errorMsg p1 = foldl append_line [] (error_lines ?allow ?evs)"
    and err: "error l1 = (error_lines ?allow ?evs \<noteq> [])"
    by (simp_all add: locals0_def)
  have msg': "p_errorMsg p1 = join [CHR 0x0A] (error_lines ?allow ?evs)"
    using foldl_append_line [of "[]" "error_lines ?allow ?evs"] error_lines_nonempty [of ?allow ?evs]
    by (simp add: msg)
  from required_loop_no_dangling [OF rl] have nd: "\<forall>b\<in>set (argData p). heap p1 (snd b) \<noteq> None"
    by (simp add: fr)
  from required_loop_result [of "argData p" "heap p1" "error l1"] nd rl fr have
    e: "e = (error l1 \<or> missing (argData p) (heap p1) \<noteq> [])"
    and rs: "rs = map (\<lambda>q. (q, label (argData p) q)) (missing (argData p) (heap p1))"
    by simp_all
  have "report_required e rs (p_errorMsg p1) = report ?allow ?evs (argData p) (heap p1)"
  proof (cases "missing (argData p) (heap p1) = []")
    case True
    with rs show ?thesis
      by (simp add: report_required_eq report_def msg')
  next
    case False
    with rs e have "report_required e rs (p_errorMsg p1)
        = append_line (join [CHR 0x0A] (error_lines ?allow ?evs)) (summary (argData p) (heap p1))"
      by (simp add: report_required_eq msg' summary_def comp_def)
    also have "\<dots> = join [CHR 0x0A] (error_lines ?allow ?evs @ [summary (argData p) (heap p1)])"
      using error_lines_nonempty [of ?allow ?evs]
      by (simp add: append_line_def join_snoc join_Nil_iff)
    finally show ?thesis using False by (simp add: report_def)
  qed
  with nh run res e err nd show ?thesis
    by auto
qed

lemma error_lines_Nil_iff:
  "error_lines allow evs = [] \<longleftrightarrow> unknown_errors allow evs = [] \<and> conversion_errors evs = []"
proof (induction evs)
  case Nil
  then show ?case
    by (simp add: error_lines_def unknown_errors_def conversion_errors_def unmatched_def)
next
  case (Cons ev evs)
  then show ?case
    by (cases "(allow, ev)" rule: error_line.cases)
       (auto simp: error_lines_Cons unknown_errors_def conversion_errors_def unmatched_def)
qed

lemma parse_fresh: "parse strtof (p\<lparr>p_errorMsg := m\<rparr>) argv out = parse strtof p argv out"
  by (simp add: parse_def Let_def GetHelpMessage_def)

lemma missing_distinct: "distinct (missing m h)"
  by (simp add: missing_def)

lemma setValue_Some_defined: "\<exists>r a'. setValue strtof a (Some s) = Inr (r, a')"
  by (cases "m_value a") (simp_all add: setValue_def)

lemma setValue_sets: "setValue strtof a raw = Inr (r, a') \<Longrightarrow> m_set a'"
  by (cases raw; cases "m_value a")
     (auto simp: setValue_def numeric_def split: if_splits)

lemma step_bool:
  assumes "map_of (argData p) (argv ! i) = Some ptr" "heap p ptr = Some a" "m_value a = V_bool b"
  shows "step strtof argv i (p, l)
           = Inr (i + 1, p\<lparr>heap := (heap p)(ptr \<mapsto> a\<lparr>m_set := True, m_value := V_bool (\<not> b)\<rparr>)\<rparr>,
                  l\<lparr>reads := reads l @ [i, i + 1]\<rparr>)"
  using assms
  by (cases "argv_at argv (i + 1)") (simp_all add: step_def Let_def setValue_def)

lemma step_unknown:
  assumes "map_of (argData p) (argv ! i) = None"
  shows "step strtof argv i (p, l)
           = Inr (i + 1,
                  (if AllowUnknownArguments p then p
                   else p\<lparr>p_errorMsg := append_line (p_errorMsg p) (''Unknown argument: '' @ argv ! i)\<rparr>),
                  l\<lparr>reads := reads l @ [i],
                    out_arg := map_option (\<lambda>v. v @ [argv ! i]) (out_arg l),
                    error := error l \<or> \<not> AllowUnknownArguments p\<rparr>)"
  using assms by (simp add: step_def Let_def)

lemma unmatched_error_lines:
  "tok \<in> set (unmatched evs) \<Longrightarrow> (''Unknown argument: '' @ tok) \<in> set (error_lines False evs)"
proof (induction evs)
  case Nil
  then show ?case by (simp add: unmatched_def)
next
  case (Cons ev evs)
  then show ?case
    by (cases ev)
       (auto simp: unmatched_def error_lines_Cons split: option.splits)
qed

subsection \<open>The help message\<close>

lemma Sorter_of_keys: "fst ` set (Sorter_of m) = snd ` set m"
proof -
  have "fst ` set (foldl (\<lambda>Sorter (name, ptr).
              map_modify ptr (\<lambda>old. case old of Some (c0, c1) \<Rightarrow> (name, c1)
                                      | None \<Rightarrow> ([], name)) Sorter) S m)
          = fst ` set S \<union> snd ` set m" for S
  proof (induction m arbitrary: S)
    case Nil
    then show ?case by simp
  next
    case (Cons b m)
    obtain name ptr where b: "b = (name, ptr)" by (cases b)
    show ?case
      by (simp add: b Cons.IH map_modify_keys)
  qed
  from this [of "[]"] show ?thesis by (simp add: Sorter_of_def)
qed

lemma help_lines_defined:
  "\<forall>e\<in>set S. h (fst e) \<noteq> None \<Longrightarrow> \<exists>text. help_lines h S = Inr text"
proof (induction S)
  case Nil
  then show ?case by simp
next
  case (Cons e S)
  obtain ptr c0 c1 where e: "e = (ptr, c0, c1)" by (cases e)
  from Cons.prems obtain a where a: "h ptr = Some a" by (auto simp: e)
  from Cons.prems Cons.IH obtain rest where "help_lines h S = Inr rest" by auto
  with a show ?case by (simp add: e)
qed

lemma GetHelpMessage_defined:
  assumes "no_dangling p"
  shows "\<exists>text. GetHelpMessage (p\<lparr>p_errorMsg := m\<rparr>) = Inr text"
proof -
  have "\<forall>e\<in>set (Sorter_of (argData p)). heap p (fst e) \<noteq> None"
  proof
    fix e assume "e \<in> set (Sorter_of (argData p))"
    then have "fst e \<in> snd ` set (argData p)"
      using Sorter_of_keys [of "argData p"] by auto
    with assms show "heap p (fst e) \<noteq> None"
      by (auto simp: no_dangling_def list_all_iff)
  qed
  from help_lines_defined [OF this] show ?thesis
    by (auto simp: GetHelpMessage_def)
qed

lemma help_requested_iff:
  "help_requested p argv \<longleftrightarrow> HelpEnabled p \<and> (tl argv = [''--help''] \<or> tl argv = [''-h''])"
proof -
  have "length argv = 2 \<and> argv ! 1 = t \<longleftrightarrow> tl argv = [t]" for t :: string
  proof (cases argv)
    case Nil
    then show ?thesis by simp
  next
    case (Cons x xs)
    then show ?thesis by (cases xs) auto
  qed
  then show ?thesis
    unfolding help_requested_def by blast
qed

subsection \<open>When the loop is defined\<close>

lemma step_defined:
  assumes "i < length argv" "no_dangling p" "bound p (argv ! i) \<longrightarrow> i + 1 < length argv"
  shows "\<exists>i' p1 l1. step strtof argv i (p, l) = Inr (i', p1, l1) \<and> argData p1 = argData p
           \<and> (\<forall>q. heap p q \<noteq> None \<longrightarrow> heap p1 q \<noteq> None)"
proof (cases "map_of (argData p) (argv ! i)")
  case None
  from step_unknown [OF this, of strtof l] show ?thesis by auto
next
  case (Some ptr)
  then have "(argv ! i, ptr) \<in> set (argData p)" by (rule map_of_SomeD)
  with assms(2) obtain a where a: "heap p ptr = Some a"
    by (force simp: no_dangling_def list_all_iff)
  from Some assms(3) have "i + 1 < length argv" by (simp add: bound_def)
  then have raw: "argv_at argv (i + 1) = Some (argv ! (i + 1))" by (simp add: argv_at_def)
  from setValue_Some_defined [of strtof a "argv ! (i + 1)"] obtain r a' where
    "setValue strtof a (argv_at argv (i + 1)) = Inr (r, a')"
    using raw by auto
  with Some a show ?thesis
    by (auto simp: step_def Let_def)
qed

lemma followed_at:
  "followed P argv \<Longrightarrow> 1 \<le> i \<Longrightarrow> i < length argv \<Longrightarrow> P (argv ! i) \<Longrightarrow> i + 1 < length argv"
  by (auto simp: followed_def list_all_iff)

lemma scan_defined:
  "no_dangling (fst s) \<Longrightarrow> followed (bound (fst s)) argv \<Longrightarrow> 1 \<le> i \<Longrightarrow>
     \<exists>s'. scan strtof argv i s = Inr s'"
proof (induction strtof argv i s rule: scan.induct)
  case (1 strtof argv i pl)
  obtain p l where pl: "pl = (p, l)" by (cases pl)
  show ?case
  proof (cases "i < length argv")
    case False
    then show ?thesis by (simp add: scan.simps)
  next
    case True
    have "bound p (argv ! i) \<longrightarrow> i + 1 < length argv"
      using followed_at [of "bound p" argv i] "1.prems" True by (simp add: pl)
    from step_defined [OF True _ this, of strtof l] "1.prems"(1) obtain i' p1 l1 where
      st: "step strtof argv i (p, l) = Inr (i', p1, l1)" and ad: "argData p1 = argData p"
      and hp: "\<forall>q. heap p q \<noteq> None \<longrightarrow> heap p1 q \<noteq> None"
      by (auto simp: pl)
    have nd: "no_dangling (fst (p1, l1))"
      using "1.prems"(1) ad hp by (auto simp: no_dangling_def list_all_iff pl)
    have b: "bound p1 = bound p" by (rule ext) (simp add: bound_def ad)
    have fo: "followed (bound (fst (p1, l1))) argv"
      using "1.prems"(2) by (simp add: b pl)
    from step_advances [OF st] "1.prems"(3) have i': "1 \<le> i'" by simp
    from "1.IH" [OF True st [folded pl] refl nd fo i'] obtain s' where
      "scan strtof argv i' (p1, l1) = Inr s'"
      by blast
    with True st show ?thesis
      by (subst scan.simps) (simp add: pl)
  qed
qed

lemma events_in_bounds:
  assumes "followed (bound p) argv" "ev \<in> set (events strtof p argv)"
  shows "list_all (\<lambda>k. 1 \<le> k \<and> k < length argv) (event_reads ev)"
proof (cases ev)
  case (Unknown_argument j tok)
  with spec_scan_events [OF assms(2) [unfolded events_def]] show ?thesis by simp
next
  case (Converted j tok slot sg)
  with spec_scan_events [OF assms(2) [unfolded events_def]] have
    j: "1 \<le> j" "j < length argv" "bound p (argv ! j)"
    by (auto simp: bound_def)
  from followed_at [OF assms(1) j] j Converted show ?thesis by simp
qed

lemma allowed_no_unknown_line:
  "(''Unknown argument: '' @ tok) \<notin> set (error_lines True evs)"
proof
  assume "(''Unknown argument: '' @ tok) \<in> set (error_lines True evs)"
  then obtain ev where "error_line True ev = Some (''Unknown argument: '' @ tok)"
    by (auto simp: error_lines_def List.map_filter_def)
  then show False
    by (cases "(True, ev)" rule: error_line.cases) auto
qed

subsection \<open>The registry that \<open>arg\<close> builds\<close>

text \<open>
  Both invariants hold of the empty parser and are kept by \<open>arg\<close>. A declaration with a
  long and a short name, both new to the map, binds exactly these two tokens to the new
  slot, and later declarations leave the names of the slot alone.
\<close>

lemma map_insert_subset: "set (map_insert k v m) \<subseteq> insert (k, v) (set m)"
proof (induction m)
  case Nil
  then show ?case by (simp add: map_insert_def)
next
  case (Cons b m)
  obtain k' v' where b: "b = (k', v')" by (cases b)
  from Cons.IH show ?case
    by (auto simp: map_insert_def b)
qed

lemma map_insert_other:
  "v \<noteq> q \<Longrightarrow> filter (\<lambda>b. snd b = q) (map_insert k v m) = filter (\<lambda>b. snd b = q) m"
proof (induction m)
  case Nil
  then show ?case by (simp add: map_insert_def)
next
  case (Cons b m)
  obtain k' v' where b: "b = (k', v')" by (cases b)
  from Cons show ?case
    by (auto simp: map_insert_def b)
qed

lemma map_insert_fresh:
  assumes "k \<notin> fst ` set m" "sorted_wrt (<) (map fst m)"
  shows "map fst (filter (\<lambda>b. snd b = v) (map_insert k v m))
           = insort k (map fst (filter (\<lambda>b. snd b = v) m))"
  using assms
proof (induction m)
  case Nil
  then show ?case by (simp add: map_insert_def)
next
  case (Cons b m)
  obtain k' v' where b: "b = (k', v')" by (cases b)
  from Cons.prems have ne: "k \<noteq> k'" and k: "k \<notin> fst ` set m"
    and lt: "\<forall>x\<in>set m. k' < fst x" and s: "sorted_wrt (<) (map fst m)"
    by (auto simp: b)
  show ?case
  proof (cases "k < k'")
    case True
    have "\<forall>x\<in>set (map fst (filter (\<lambda>b. snd b = v) ((k', v') # m))). k \<le> x"
      using True lt by (auto intro: less_imp_le order.strict_trans)
    from insort_is_Cons [OF this] True show ?thesis
      by (simp add: map_insert_def b)
  next
    case False
    with ne have gt: "k' < k" by simp
    from Cons.IH [OF k s] have
      ih: "map fst (filter (\<lambda>b. snd b = v) (map_modify k (\<lambda>old. case old of None \<Rightarrow> v | Some v' \<Rightarrow> v') m))
             = insort k (map fst (filter (\<lambda>b. snd b = v) m))"
      by (simp add: map_insert_def)
    from False ne gt show ?thesis
      by (simp add: map_insert_def b ih)
  qed
qed

lemma names_of_arg_other:
  "ptr \<noteq> slot \<Longrightarrow> names_of (argData (arg ptr LongName ShortName d h r p)) slot = names_of (argData p) slot"
  by (simp add: arg_def Let_def names_of_def map_insert_other)

lemma map_insert_keys: "fst ` set (map_insert k v m) = insert k (fst ` set m)"
  by (simp add: map_insert_def map_modify_keys)

lemma map_insert_sorted:
  "sorted_wrt (<) (map fst m) \<Longrightarrow> sorted_wrt (<) (map fst (map_insert k v m))"
  by (simp add: map_insert_def map_modify_sorted)

lemma names_of_arg:
  assumes "map_invariant p" "ptr \<notin> snd ` set (argData p)"
    and "LongName \<noteq> []" "ShortName \<noteq> []"
    and "''--'' @ LongName \<notin> fst ` set (argData p)" "''-'' @ ShortName \<notin> fst ` set (argData p)"
    and "''--'' @ LongName \<noteq> ''-'' @ ShortName"
  shows "names_of (argData (arg ptr LongName ShortName d h r p)) ptr
           = (if ''-'' @ ShortName \<le> ''--'' @ LongName
              then [''-'' @ ShortName, ''--'' @ LongName]
              else [''--'' @ LongName, ''-'' @ ShortName])"
proof -
  let ?m1 = "map_insert (''--'' @ LongName) ptr (argData p)"
  have s0: "sorted_wrt (<) (map fst (argData p))" using assms(1) by (simp add: map_invariant_def)
  have e: "filter (\<lambda>b. snd b = ptr) (argData p) = []"
    using assms(2) by (auto simp: filter_empty_conv)
  have n1: "map fst (filter (\<lambda>b. snd b = ptr) ?m1) = [''--'' @ LongName]"
    using map_insert_fresh [OF assms(5) s0, of ptr] by (simp add: e)
  have k1: "''-'' @ ShortName \<notin> fst ` set ?m1"
    using assms(6,7) by (simp add: map_insert_keys del: append.simps)
  have s1: "sorted_wrt (<) (map fst ?m1)" using s0 by (rule map_insert_sorted)
  have "map fst (filter (\<lambda>b. snd b = ptr) (map_insert (''-'' @ ShortName) ptr ?m1))
          = insort (''-'' @ ShortName) [''--'' @ LongName]"
    using map_insert_fresh [OF k1 s1, of ptr] by (simp only: n1)
  with assms(3,4) show ?thesis
    by (simp add: arg_def Let_def names_of_def del: append.simps)
qed

lemma no_dangling_default: "no_dangling Parser_default"
  by (simp add: no_dangling_def Parser_default_def)

lemma map_invariant_default: "map_invariant Parser_default"
  by (simp add: map_invariant_def Parser_default_def)

lemma map_insert_values: "snd ` set (map_insert k v m) \<subseteq> insert v (snd ` set m)"
  using map_insert_subset [of k v m] by force

lemma map_insert_twice_values:
  "snd ` set (if S then (if L then m else map_insert k1 v m)
              else map_insert k2 v (if L then m else map_insert k1 v m))
     \<subseteq> insert v (snd ` set m)"
proof -
  have 1: "snd ` set (map_insert k1 v m) \<subseteq> insert v (snd ` set m)"
    by (rule map_insert_values)
  have 2: "snd ` set (map_insert k2 v m') \<subseteq> insert v (snd ` set m')" for m'
    by (rule map_insert_values)
  have 3: "snd ` set (map_insert k2 v (map_insert k1 v m)) \<subseteq> insert v (snd ` set m)"
    using 1 2 [of "map_insert k1 v m"] by blast
  show ?thesis
    using 1 2 [of m] 3 by (cases S; cases L) auto
qed

lemma arg_values:
  "snd ` set (argData (arg ptr LongName ShortName d h r p)) \<subseteq> insert ptr (snd ` set (argData p))"
proof -
  have "argData (arg ptr LongName ShortName d h r p)
          = (if ShortName = [] then (if LongName = [] then argData p
                                     else map_insert (''--'' @ LongName) ptr (argData p))
             else map_insert (''-'' @ ShortName) ptr
                    (if LongName = [] then argData p
                     else map_insert (''--'' @ LongName) ptr (argData p)))"
    by (simp add: arg_def Let_def)
  then show ?thesis
    by (simp only: map_insert_twice_values)
qed

lemma no_dangling_arg:
  assumes "no_dangling p"
  shows "no_dangling (arg ptr LongName ShortName d h r p)"
proof -
  have h: "heap (arg ptr LongName ShortName d h r p)
             = (heap p)(ptr \<mapsto> TypeHandler_new d h r)"
    by (simp add: arg_def Let_def)
  have "heap (arg ptr LongName ShortName d h r p) q \<noteq> None"
    if "q \<in> snd ` set (argData (arg ptr LongName ShortName d h r p))" for q
  proof -
    from that arg_values [of ptr LongName ShortName d h r p]
    have "q = ptr \<or> q \<in> snd ` set (argData p)" by auto
    with assms show ?thesis
      unfolding h by (auto simp: no_dangling_def list_all_iff)
  qed
  then show ?thesis by (auto simp: no_dangling_def list_all_iff)
qed

lemma map_invariant_arg:
  "map_invariant p \<Longrightarrow> map_invariant (arg ptr LongName ShortName d h r p)"
  by (simp add: map_invariant_def arg_def Let_def map_insert_sorted)

subsection \<open>Slots the scan leaves alone, and the report around one event\<close>

lemma run_heap_other:
  "run evs s s' \<Longrightarrow> ptr \<notin> set (converted_slots evs) \<Longrightarrow> heap (fst s') ptr = heap (fst s) ptr"
proof (induction rule: run.induct)
  case (run_Nil s)
  then show ?case by simp
next
  case (run_Cons ev s s1 evs s2)
  obtain p l where s: "s = (p, l)" by (cases s)
  obtain p1 l1 where s1: "s1 = (p1, l1)" by (cases s1)
  from run_Cons.prems have a: "ptr \<notin> set (converted_slots [ev])" "ptr \<notin> set (converted_slots evs)"
    by (auto simp: converted_slots_Cons converted_slots_Nil split: event.splits)
  from effect_heap_other [OF run_Cons.hyps(1) [unfolded s s1] a(1)] run_Cons.IH [OF a(2)]
  show ?case by (simp add: s s1)
qed

lemma names_of_map_of:
  "map_of m tok = Some slot \<Longrightarrow> tok \<in> set (names_of m slot)"
  by (force simp: names_of_def dest: map_of_SomeD)

lemma absent_not_converted:
  assumes "\<forall>tok\<in>set (names_of (argData p) slot). tok \<notin> set (tl argv)"
  shows "slot \<notin> set (converted_slots (events strtof p argv))"
proof
  assume "slot \<in> set (converted_slots (events strtof p argv))"
  then obtain ev where ev: "ev \<in> set (events strtof p argv)"
    "(case ev of Converted i tok slot sg \<Rightarrow> Some slot | _ \<Rightarrow> None) = Some slot"
    by (auto simp: converted_slots_def List.map_filter_def)
  from ev(2) obtain j tok sg where e: "ev = Converted j tok slot sg"
    by (cases ev) auto
  from spec_scan_events [OF ev(1) [unfolded events_def]] e
  have j: "1 \<le> j" "j < length argv" "tok = argv ! j" "map_of (argData p) tok = Some slot"
    by auto
  from j(1,2) have "argv ! j \<in> set (tl argv)"
    by (cases argv) (auto simp: nth_Cons split: nat.splits)
  with names_of_map_of [OF j(4)] assms j(3) show False by auto
qed

lemma parse_returns:
  assumes "no_dangling p" "followed (bound p) argv" "\<not> help_requested p argv"
  shows "\<exists>ok p' l'. parse strtof p argv out = Returned ok p' l'"
proof -
  let ?p0 = "p\<lparr>p_errorMsg := []\<rparr>"
  let ?l0 = "locals0 p argv out"
  have nd0: "no_dangling (fst (?p0, ?l0))" using assms(1) by (simp add: no_dangling_def)
  have "bound ?p0 = bound p" by (rule ext) (simp add: bound_def)
  with assms(2) have fo0: "followed (bound (fst (?p0, ?l0))) argv" by simp
  from scan_defined [OF nd0 fo0, of 1 strtof] obtain p1 l1 where
    sc: "scan strtof argv 1 (?p0, ?l0) = Inr (p1, l1)"
    by auto
  from scan_run [OF sc] have run: "run (events strtof p argv) (?p0, ?l0) (p1, l1)"
    by (simp add: events_def)
  from run_frame [OF run] have ad: "argData p1 = argData p" by simp
  have "\<forall>b\<in>set (argData p1). heap p1 (snd b) \<noteq> None"
  proof
    fix b assume "b \<in> set (argData p1)"
    with assms(1) ad obtain a where "heap ?p0 (snd b) = Some a"
      by (auto simp: no_dangling_def list_all_iff)
    from run_heap_Some [OF run, of "snd b" a] this show "heap p1 (snd b) \<noteq> None" by auto
  qed
  from required_loop_result [OF this, of "error l1"] obtain e rs where
    rl: "required_loop (heap p1) (argData p1) (error l1, []) = Inr (e, rs)"
    by blast
  from parse_scan [OF assms(3), of strtof out] sc rl show ?thesis by simp
qed

lemma error_lines_append:
  "error_lines allow (xs @ ys) = error_lines allow xs @ error_lines allow ys"
  by (simp add: error_lines_def List.map_filter_def)

lemma unmatched_append: "unmatched (xs @ ys) = unmatched xs @ unmatched ys"
  by (simp add: unmatched_def List.map_filter_def)

lemma error_lines_unknown_at:
  assumes "k < length evs" "evs ! k = Unknown_argument i tok"
  shows "error_lines allow evs
           = error_lines allow (take k evs)
               @ (if allow then [] else [''Unknown argument: '' @ tok])
               @ error_lines allow (drop (Suc k) evs)"
proof -
  from id_take_nth_drop [OF assms(1)] assms(2)
  have "evs = take k evs @ Unknown_argument i tok # drop (Suc k) evs"
    by simp
  then have "error_lines allow evs
      = error_lines allow (take k evs @ [Unknown_argument i tok] @ drop (Suc k) evs)"
    by simp
  then show ?thesis
    unfolding error_lines_append by (simp add: error_lines_def List.map_filter_def)
qed

lemma unmatched_unknown_at:
  assumes "k < length evs" "evs ! k = Unknown_argument i tok"
  shows "unmatched evs = unmatched (take k evs) @ [tok] @ unmatched (drop (Suc k) evs)"
proof -
  from id_take_nth_drop [OF assms(1)] assms(2)
  have "evs = take k evs @ Unknown_argument i tok # drop (Suc k) evs"
    by simp
  then have "unmatched evs = unmatched (take k evs @ [Unknown_argument i tok] @ drop (Suc k) evs)"
    by simp
  then show ?thesis
    unfolding unmatched_append by (simp add: unmatched_def List.map_filter_def)
qed

lemma heap_arg:
  "heap (arg ptr LongName ShortName d h r p) ptr = Some (TypeHandler_new d h r)"
  by (simp add: arg_def Let_def)

lemma spec_scan_drop:
  "k < length (spec_scan strtof m ty argv i0) \<Longrightarrow>
     spec_scan strtof m ty argv i0 ! k = Unknown_argument i tok \<Longrightarrow>
     drop (Suc k) (spec_scan strtof m ty argv i0) = spec_scan strtof m ty argv (i + 1)"
proof (induction k arbitrary: i0)
  case 0
  then show ?case
    by (subst (asm) (1 2) spec_scan.simps [of _ _ _ _ i0], subst spec_scan.simps [of _ _ _ _ i0])
       (auto split: if_splits option.splits)
next
  case (Suc k)
  from Suc.prems have lt: "i0 < length argv"
    by (subst (asm) (1 2) spec_scan.simps [of _ _ _ _ i0]) (auto split: if_splits)
  show ?case
  proof (cases "map_of m (argv ! i0)")
    case None
    then have e: "spec_scan strtof m ty argv i0
        = Unknown_argument i0 (argv ! i0) # spec_scan strtof m ty argv (i0 + 1)"
      using lt by (subst spec_scan.simps) simp
    from Suc.prems Suc.IH [of "i0 + 1"] show ?thesis
      unfolding e by simp
  next
    case (Some slot)
    show ?thesis
    proof (cases "ty slot")
      case None
      then have "spec_scan strtof m ty argv i0 = []"
        using lt Some by (subst spec_scan.simps) simp
      with Suc.prems show ?thesis by simp
    next
      case T: (Some T)
      show ?thesis
      proof (cases "ConvertFromText strtof T (argv_at argv (i0 + 1))")
        case None
        then have "spec_scan strtof m ty argv i0 = []"
          using lt Some T by (subst spec_scan.simps) simp
        with Suc.prems show ?thesis by simp
      next
        case sg: (Some sg)
        then have e: "spec_scan strtof m ty argv i0
            = Converted i0 (argv ! i0) slot sg # spec_scan strtof m ty argv (i0 + advance sg)"
          using lt Some T by (subst spec_scan.simps) simp
        from Suc.prems Suc.IH [of "i0 + advance sg"] show ?thesis
          unfolding e by simp
      qed
    qed
  qed
qed

lemma missing_after:
  assumes "parse strtof p argv out = Returned ok p' l'"
  shows "missing (argData p) (heap p')
           = filter (\<lambda>q. q \<notin> set (converted_slots (events strtof p argv)))
               (missing (argData p) (heap p))"
proof -
  let ?evs = "events strtof p argv"
  from parse_Returned [OF assms] obtain p1 where
    run: "run ?evs (p\<lparr>p_errorMsg := []\<rparr>, locals0 p argv out) (p1, l')"
    and p': "p' = p1\<lparr>p_errorMsg := report (AllowUnknownArguments p) ?evs (argData p) (heap p1)\<rparr>"
    and nd: "\<forall>b\<in>set (argData p). heap p1 (snd b) \<noteq> None"
    by blast
  from p' have h: "heap p' = heap p1" by simp
  have "is_missing (heap p1) q \<longleftrightarrow> is_missing (heap p) q \<and> q \<notin> set (converted_slots ?evs)"
    if "q \<in> snd ` set (argData p)" for q
  proof -
    from that nd have 1: "heap p1 q \<noteq> None" by auto
    from run_heap_None [OF run, of q] 1 obtain a where a: "heap p q = Some a"
      by (cases "heap p q") auto
    from run_heap_Some [OF run, of q a] a obtain a' where
      "heap p1 q = Some a'" "m_required a' = m_required a"
      "m_set a' \<longleftrightarrow> m_set a \<or> q \<in> set (converted_slots ?evs)"
      by auto
    with a show ?thesis by (auto simp: is_missing_def)
  qed
  then have "filter (is_missing (heap p1)) (sort (remdups (map snd (argData p))))
      = filter (\<lambda>q. is_missing (heap p) q \<and> q \<notin> set (converted_slots ?evs))
          (sort (remdups (map snd (argData p))))"
    by (intro filter_cong refl) auto
  then show ?thesis
    by (simp add: missing_def h conj_commute)
qed

lemma summary_line:
  assumes "parse strtof p argv out = Returned ok p' l'"
    and "missing (argData p) (heap p') \<noteq> []"
  shows "\<not> ok"
    and "p_errorMsg p'
           = join [CHR 0x0A]
               (error_lines (AllowUnknownArguments p) (events strtof p argv)
                  @ [''The following required arguments was not set: ''
                       @ join '', '' (map (label (argData p)) (missing (argData p) (heap p')))])"
proof -
  from parse_Returned [OF assms(1)] obtain p1 where
    p': "p' = p1\<lparr>p_errorMsg := report (AllowUnknownArguments p) (events strtof p argv)
                                       (argData p) (heap p1)\<rparr>"
    and ok: "ok \<longleftrightarrow> error_lines (AllowUnknownArguments p) (events strtof p argv) = []
                     \<and> missing (argData p) (heap p1) = []"
    by blast
  from p' have h: "heap p1 = heap p'" by simp
  from ok assms(2) h show "\<not> ok" by simp
  have "p_errorMsg p' = report (AllowUnknownArguments p) (events strtof p argv)
                                       (argData p) (heap p')"
    using p' by simp
  with assms(2) show "p_errorMsg p'
           = join [CHR 0x0A]
               (error_lines (AllowUnknownArguments p) (events strtof p argv)
                  @ [''The following required arguments was not set: ''
                       @ join '', '' (map (label (argData p)) (missing (argData p) (heap p')))])"
    by (simp add: report_def summary_def)
qed

lemma unset_stays_unset:
  assumes "parse strtof p argv out = Returned ok p' l'"
    and "slot \<notin> set (converted_slots (events strtof p argv))"
  shows "heap p' slot = heap p slot"
proof -
  from parse_Returned [OF assms(1)] obtain p1 where
    run: "run (events strtof p argv) (p\<lparr>p_errorMsg := []\<rparr>, locals0 p argv out) (p1, l')"
    and p': "p' = p1\<lparr>p_errorMsg := report (AllowUnknownArguments p) (events strtof p argv)
                                       (argData p) (heap p1)\<rparr>"
    by blast
  from run_heap_other [OF run assms(2)] p' show ?thesis by simp
qed

lemma report_message:
  assumes "parse strtof p argv out = Returned ok p' l'"
  shows "p_errorMsg p'
           = join [CHR 0x0A]
               (error_lines (AllowUnknownArguments p) (events strtof p argv)
                  @ (if missing (argData p) (heap p') = [] then []
                     else [summary (argData p) (heap p')]))"
    and "ok \<longleftrightarrow> error_lines (AllowUnknownArguments p) (events strtof p argv) = []
                     \<and> missing (argData p) (heap p') = []"
    and "out_arg l' = map_option (\<lambda>v. v @ unmatched (events strtof p argv)) out"
proof -
  from parse_Returned [OF assms(1)] obtain p1 where
    run: "run (events strtof p argv) (p\<lparr>p_errorMsg := []\<rparr>, locals0 p argv out) (p1, l')"
    and p': "p' = p1\<lparr>p_errorMsg := report (AllowUnknownArguments p) (events strtof p argv)
                                       (argData p) (heap p1)\<rparr>"
    and ok: "ok \<longleftrightarrow> error_lines (AllowUnknownArguments p) (events strtof p argv) = []
                     \<and> missing (argData p) (heap p1) = []"
    by blast
  from p' have h: "heap p1 = heap p'" by simp
  from ok h show "ok \<longleftrightarrow> error_lines (AllowUnknownArguments p) (events strtof p argv) = []
                     \<and> missing (argData p) (heap p') = []" by simp
  from p' have "p_errorMsg p' = report (AllowUnknownArguments p) (events strtof p argv)
                                  (argData p) (heap p1)"
    by simp
  then show "p_errorMsg p'
           = join [CHR 0x0A]
               (error_lines (AllowUnknownArguments p) (events strtof p argv)
                  @ (if missing (argData p) (heap p') = [] then []
                     else [summary (argData p) (heap p')]))"
    unfolding h report_def .
  from run_out [OF run] show "out_arg l' = map_option (\<lambda>v. v @ unmatched (events strtof p argv)) out"
    by (simp add: locals0_def)
qed


subsection \<open>Evaluation on concrete inputs\<close>

lemmas run_parse =
  parse_def Let_def scan.simps step_def example_parser_def count_parser_def required_count_def char_parser_def
  arg_def Parser_default_def
  map_insert_def setValue_def argv_at_def report_required_def append_line_def no_strtof_def

lemmas run_spec =
  events_def spec_scan.simps types_of_def error_lines_def unmatched_def converted_slots_def
  missing_def is_missing_def summary_def label_def names_of_def
  report_def help_requested_def locals0_def

section \<open>The claims\<close>

subsection \<open>C1: the result of \<open>parse\<close> and the error report\<close>

text \<open>
  C1. When \<open>parse\<close> returns, it returns success exactly when the scan gave no
  unknown-argument error and no conversion error and no required slot is missing. The
  parser's error message is then the error lines of the scan, in scan order, followed by
  the summary line if a slot is missing, joined by newlines. The call gives the same
  result whatever error message the parser held before. The events are those of the
  specification's scan over the registry as it is before the call; the missing slots are
  read in the parser as it is after the call.
\<close>

theorem parse_report:
  assumes "parse strtof p argv out = Returned ok p' l'"
  shows "(ok \<longleftrightarrow> unknown_errors (AllowUnknownArguments p) (events strtof p argv) = []
                 \<and> conversion_errors (events strtof p argv) = []
                 \<and> missing (argData p) (heap p') = [])
         \<and> p_errorMsg p'
             = join [CHR 0x0A]
                 (error_lines (AllowUnknownArguments p) (events strtof p argv)
                    @ (if missing (argData p) (heap p') = [] then []
                       else [summary (argData p) (heap p')]))
         \<and> parse strtof (p\<lparr>p_errorMsg := previous\<rparr>) argv out = Returned ok p' l'"
proof -
  from parse_Returned [OF assms] obtain p1 where
    p': "p' = p1\<lparr>p_errorMsg := report (AllowUnknownArguments p) (events strtof p argv)
                                       (argData p) (heap p1)\<rparr>"
    and ok: "ok \<longleftrightarrow> error_lines (AllowUnknownArguments p) (events strtof p argv) = []
                     \<and> missing (argData p) (heap p1) = []"
    by blast
  from p' have h: "heap p' = heap p1" by simp
  from p' have "p_errorMsg p' = report (AllowUnknownArguments p) (events strtof p argv)
                                       (argData p) (heap p')"
    by simp
  with ok h assms show ?thesis
    by (simp add: report_def error_lines_Nil_iff parse_fresh)
qed

theorem parse_report_witness:
  "\<exists>p' l'. parse no_strtof example_parser [''prog'', ''-t'', ''3x'', ''--bad''] (Some []) = Returned False p' l'
     \<and> (False \<longleftrightarrow> unknown_errors (AllowUnknownArguments example_parser)
                      (events no_strtof example_parser [''prog'', ''-t'', ''3x'', ''--bad'']) = []
                 \<and> conversion_errors (events no_strtof example_parser [''prog'', ''-t'', ''3x'', ''--bad'']) = []
                 \<and> missing (argData example_parser) (heap p') = [])
     \<and> p_errorMsg p'
         = join [CHR 0x0A]
             (error_lines (AllowUnknownArguments example_parser)
                (events no_strtof example_parser [''prog'', ''-t'', ''3x'', ''--bad''])
                @ (if missing (argData example_parser) (heap p') = [] then []
                   else [summary (argData example_parser) (heap p')]))
     \<and> error_lines (AllowUnknownArguments example_parser)
          (events no_strtof example_parser [''prog'', ''-t'', ''3x'', ''--bad''])
         = [''Error in argument: -t, \"3x\" is not a positive integer.'', ''Unknown argument: --bad'']
     \<and> summary (argData example_parser) (heap p')
         = ''The following required arguments was not set: --msg or -m''"
proof -
  have "\<exists>p' l'. parse no_strtof example_parser [''prog'', ''-t'', ''3x'', ''--bad''] (Some []) = Returned False p' l'
     \<and> summary (argData example_parser) (heap p')
         = ''The following required arguments was not set: --msg or -m''"
    by (simp add: run_parse run_spec evaluate)
  then obtain p' l' where
    r: "parse no_strtof example_parser [''prog'', ''-t'', ''3x'', ''--bad''] (Some []) = Returned False p' l'"
    and s: "summary (argData example_parser) (heap p')
         = ''The following required arguments was not set: --msg or -m''"
    by blast
  have e: "error_lines (AllowUnknownArguments example_parser)
          (events no_strtof example_parser [''prog'', ''-t'', ''3x'', ''--bad''])
         = [''Error in argument: -t, \"3x\" is not a positive integer.'', ''Unknown argument: --bad'']"
    by (simp add: run_parse run_spec evaluate)
  note t = parse_report [OF r]
  show ?thesis
    by (rule exI [where x = p'], rule exI [where x = l'])
       (intro conjI r t [THEN conjunct1] t [THEN conjunct2, THEN conjunct1] e s)
qed


subsection \<open>C2: numeric conversion\<close>





subsection \<open>C3: the help request\<close>

text \<open>
  C3. When help is enabled and the arguments after the program name are exactly the one
  token \<open>--help\<close> or \<open>-h\<close>, \<open>parse\<close> writes the help message and exits with status 0: it
  returns nothing, the loop has read no argument and no slot has been examined. For any
  other argument vector, and whenever help is disabled, \<open>parse\<close> does not exit.
\<close>

theorem help_exit:
  "(help_requested p argv \<and> no_dangling p \<longrightarrow>
      (\<exists>message. GetHelpMessage (p\<lparr>p_errorMsg := []\<rparr>) = Inr message
         \<and> parse strtof p argv out
             = Exit 0 message \<lparr>error = False, out_arg = out, reads = [1]\<rparr>))
   \<and> (\<not> help_requested p argv \<longrightarrow>
        (\<forall>status message l. parse strtof p argv out \<noteq> Exit status message l))
   \<and> (help_requested p argv \<longleftrightarrow>
        HelpEnabled p \<and> (tl argv = [''--help''] \<or> tl argv = [''-h'']))"
proof -
  have 1: "\<exists>message. GetHelpMessage (p\<lparr>p_errorMsg := []\<rparr>) = Inr message
         \<and> parse strtof p argv out = Exit 0 message \<lparr>error = False, out_arg = out, reads = [1]\<rparr>"
    if h: "help_requested p argv" and nd: "no_dangling p"
  proof -
    from GetHelpMessage_defined [OF nd] obtain message where
      t: "GetHelpMessage (p\<lparr>p_errorMsg := []\<rparr>) = Inr message"
      by blast
    from h have "locals0 p argv out = \<lparr>error = False, out_arg = out, reads = [1]\<rparr>"
      by (simp add: locals0_def help_requested_def)
    with parse_help [OF h, of strtof out] t show ?thesis by simp
  qed
  have 2: "parse strtof p argv out \<noteq> Exit status message l" if "\<not> help_requested p argv"
    for status message l
    using parse_scan [OF that, of strtof out] by (simp split: sum.splits prod.splits)
  from 1 2 help_requested_iff [of p argv] show ?thesis by blast
qed

theorem help_exit_witness:
  "help_requested example_parser [''prog'', ''--help''] \<and> no_dangling example_parser
   \<and> (\<exists>message. GetHelpMessage (example_parser\<lparr>p_errorMsg := []\<rparr>) = Inr message
         \<and> parse no_strtof example_parser [''prog'', ''--help''] None
             = Exit 0 message \<lparr>error = False, out_arg = None, reads = [1]\<rparr>)
   \<and> \<not> help_requested example_parser [''prog'', ''--help'', ''-n'']
   \<and> (\<forall>status message l.
         parse no_strtof example_parser [''prog'', ''--help'', ''-n''] None \<noteq> Exit status message l)
   \<and> \<not> help_requested (example_parser\<lparr>HelpEnabled := False\<rparr>) [''prog'', ''--help'']
   \<and> (\<forall>status message l.
         parse no_strtof (example_parser\<lparr>HelpEnabled := False\<rparr>) [''prog'', ''--help''] None
           \<noteq> Exit status message l)"
proof -
  have h: "help_requested example_parser [''prog'', ''--help'']" "no_dangling example_parser"
    "\<not> help_requested example_parser [''prog'', ''--help'', ''-n'']"
    "\<not> help_requested (example_parser\<lparr>HelpEnabled := False\<rparr>) [''prog'', ''--help'']"
    by (simp_all add: help_requested_def no_dangling_def run_parse)
  note t1 = help_exit [where strtof = no_strtof and p = example_parser
      and argv = "[''prog'', ''--help'']" and out = None]
  note t2 = help_exit [where strtof = no_strtof and p = example_parser
      and argv = "[''prog'', ''--help'', ''-n'']" and out = None]
  note t3 = help_exit [where strtof = no_strtof and p = "example_parser\<lparr>HelpEnabled := False\<rparr>"
      and argv = "[''prog'', ''--help'']" and out = None]
  show ?thesis
    by (intro conjI h t1 [THEN conjunct1, THEN mp, OF conjI [OF h(1,2)]]
          t2 [THEN conjunct2, THEN conjunct1, THEN mp, OF h(3)]
          t3 [THEN conjunct2, THEN conjunct1, THEN mp, OF h(4)])
qed


subsection \<open>C4: every conversion marks the slot as set\<close>

text \<open>
  C4. Whenever \<open>setValue\<close> returns, the slot is marked as set, whatever the signal, and it
  returns for every slot and every token. Hence, when \<open>parse\<close> returns, every slot a token
  of the scan was bound to is set and is not among the missing slots, also when its only
  conversion failed.
\<close>

theorem set_unconditionally:
  "(setValue strtof a raw = Inr (r, a') \<longrightarrow> m_set a')
   \<and> (\<exists>r a'. setValue strtof a (Some s) = Inr (r, a') \<and> m_set a')
   \<and> (parse strtof p argv out = Returned ok p' l'
        \<and> Converted i tok slot sg \<in> set (events strtof p argv) \<longrightarrow>
          (\<exists>a'. heap p' slot = Some a' \<and> m_set a')
          \<and> slot \<notin> set (missing (argData p) (heap p')))"
proof -
  have 1: "setValue strtof a raw = Inr (r, a') \<longrightarrow> m_set a'"
    using setValue_sets by blast
  have 2: "\<exists>r a'. setValue strtof a (Some s) = Inr (r, a') \<and> m_set a'"
    using setValue_Some_defined [of strtof a s] setValue_sets by blast
  have 3: "(\<exists>a'. heap p' slot = Some a' \<and> m_set a') \<and> slot \<notin> set (missing (argData p) (heap p'))"
    if r: "parse strtof p argv out = Returned ok p' l'"
      and ev: "Converted i tok slot sg \<in> set (events strtof p argv)"
  proof -
    from parse_Returned [OF r] obtain p1 where
      run: "run (events strtof p argv) (p\<lparr>p_errorMsg := []\<rparr>, locals0 p argv out) (p1, l')"
      and p': "p' = p1\<lparr>p_errorMsg := report (AllowUnknownArguments p) (events strtof p argv)
                                       (argData p) (heap p1)\<rparr>"
      by blast
    from ev have c: "slot \<in> set (converted_slots (events strtof p argv))"
      by (force simp: converted_slots_def List.map_filter_def)
    from spec_scan_events [OF ev [unfolded events_def]] obtain T where "types_of p slot = Some T"
      by auto
    then obtain a where a: "heap p slot = Some a" by (auto simp: types_of_def)
    from run_heap_Some [OF run, of slot a] a c obtain a' where
      "heap p1 slot = Some a'" "m_set a'"
      by auto
    with p' show ?thesis
      by (simp add: set_missing is_missing_def)
  qed
  from 1 2 3 show ?thesis by blast
qed

theorem set_unconditionally_witness:
  "\<exists>p' l' a'. parse no_strtof required_count [''prog'', ''-c'', ''x''] None = Returned False p' l'
     \<and> Converted 1 ''-c'' 0 (Failed ''\"x\" is not an integer.'')
         \<in> set (events no_strtof required_count [''prog'', ''-c'', ''x''])
     \<and> (\<exists>a'. heap p' 0 = Some a' \<and> m_set a')
     \<and> 0 \<notin> set (missing (argData required_count) (heap p'))
     \<and> p_errorMsg p' = ''Error in argument: -c, \"x\" is not an integer.''
     \<and> setValue no_strtof (TypeHandler_new (V_int 0) ''The count.'' True) (Some ''x'') = Inr (- 1, a')
     \<and> m_set a'"
proof -
  have "\<exists>p' l'. parse no_strtof required_count [''prog'', ''-c'', ''x''] None = Returned False p' l'
     \<and> p_errorMsg p' = ''Error in argument: -c, \"x\" is not an integer.''"
    by (simp add: run_parse evaluate)
  then obtain p' l' where
    r: "parse no_strtof required_count [''prog'', ''-c'', ''x''] None = Returned False p' l'"
    and e: "p_errorMsg p' = ''Error in argument: -c, \"x\" is not an integer.''"
    by blast
  have ev: "Converted 1 ''-c'' 0 (Failed ''\"x\" is not an integer.'')
         \<in> set (events no_strtof required_count [''prog'', ''-c'', ''x''])"
    by (simp add: run_parse run_spec evaluate)
  have "\<exists>a'. setValue no_strtof (TypeHandler_new (V_int 0) ''The count.'' True) (Some ''x'') = Inr (- 1, a')"
    by (simp add: setValue_def evaluate)
  then obtain a' where
    s: "setValue no_strtof (TypeHandler_new (V_int 0) ''The count.'' True) (Some ''x'') = Inr (- 1, a')"
    by blast
  note t = set_unconditionally [where strtof = no_strtof and p = required_count
      and argv = "[''prog'', ''-c'', ''x'']" and out = None and ok = False and p' = p' and l' = l'
      and i = 1 and tok = "''-c''" and slot = 0 and sg = "Failed ''\"x\" is not an integer.''"
      and a = "TypeHandler_new (V_int 0) ''The count.'' True" and raw = "Some ''x''" and r = "- 1"
      and a' = a' and s = "''x''"]
  note t1 = t [THEN conjunct1, THEN mp, OF s]
  note t3 = t [THEN conjunct2, THEN conjunct2, THEN mp, OF conjI [OF r ev]]
  show ?thesis
    by (rule exI [where x = p'], rule exI [where x = l'], rule exI [where x = a'])
       (intro conjI r ev e s t1 t3 [THEN conjunct1] t3 [THEN conjunct2])
qed


subsection \<open>C5: boolean arguments\<close>

text \<open>
  C5. The conversion of a boolean slot never reads its argument, which may even be the
  null pointer: it negates the stored value and signals 0. So the iteration of the loop
  at a token bound to a boolean slot moves the cursor by exactly one and touches nothing
  but that slot, and the next iteration treats the following token as a token of its
  own. When \<open>parse\<close> returns, a boolean slot holds its initial value negated once for each
  token of the scan bound to it, and it is set if it was set before or such a token
  occurred. A boolean declared with default \<open>false\<close> whose flag occurs once thus ends with
  the value \<open>true\<close> and is set.
\<close>

theorem boolean_toggle:
  "(m_value a = V_bool b \<longrightarrow>
      setValueChar strtof a raw = Inr (0, a\<lparr>m_value := V_bool (\<not> b)\<rparr>))
   \<and> (i < length argv \<and> map_of (argData p) (argv ! i) = Some ptr \<and> heap p ptr = Some a
        \<and> m_value a = V_bool b \<longrightarrow>
        step strtof argv i (p, l)
          = Inr (i + 1, p\<lparr>heap := (heap p)(ptr \<mapsto> a\<lparr>m_set := True, m_value := V_bool (\<not> b)\<rparr>)\<rparr>,
                 l\<lparr>reads := reads l @ [i, i + 1]\<rparr>))
   \<and> (parse strtof p argv out = Returned ok p' l' \<and> heap p ptr = Some a \<and> m_value a = V_bool b \<longrightarrow>
        (\<exists>a'. heap p' ptr = Some a'
           \<and> m_value a'
               = V_bool (if even (count_list (converted_slots (events strtof p argv)) ptr)
                         then b else \<not> b)
           \<and> (m_set a' \<longleftrightarrow> m_set a \<or> ptr \<in> set (converted_slots (events strtof p argv)))))"
proof -
  have 1: "m_value a = V_bool b \<longrightarrow>
      setValueChar strtof a raw = Inr (0, a\<lparr>m_value := V_bool (\<not> b)\<rparr>)"
    by (cases raw) simp_all
  have 3: "\<exists>a'. heap p' ptr = Some a'
           \<and> m_value a'
               = V_bool (if even (count_list (converted_slots (events strtof p argv)) ptr)
                         then b else \<not> b)
           \<and> (m_set a' \<longleftrightarrow> m_set a \<or> ptr \<in> set (converted_slots (events strtof p argv)))"
    if r: "parse strtof p argv out = Returned ok p' l'" and a: "heap p ptr = Some a"
      and b: "m_value a = V_bool b"
  proof -
    from parse_Returned [OF r] obtain p1 where
      run: "run (events strtof p argv) (p\<lparr>p_errorMsg := []\<rparr>, locals0 p argv out) (p1, l')"
      and p': "p' = p1\<lparr>p_errorMsg := report (AllowUnknownArguments p) (events strtof p argv)
                                       (argData p) (heap p1)\<rparr>"
      by blast
    from run_heap_Some [OF run, of ptr a] a b p' show ?thesis
      by auto
  qed
  from 1 step_bool [of p argv i ptr a b strtof l] 3 show ?thesis by blast
qed

theorem boolean_toggle_witness:
  "\<exists>p' l' a'. m_value (TypeHandler_new (V_bool False) ''Print line numbers for the message.'' False :: unit AnyTypeArg)
        = V_bool False
     \<and> parse no_strtof example_parser [''prog'', ''-n'', ''extra''] (Some []) = Returned False p' l'
     \<and> heap example_parser 2 = Some (TypeHandler_new (V_bool False) ''Print line numbers for the message.'' False)
     \<and> heap p' 2 = Some a'
     \<and> m_value a'
         = V_bool (if even (count_list (converted_slots
                     (events no_strtof example_parser [''prog'', ''-n'', ''extra''])) 2)
                   then False else \<not> False)
     \<and> count_list (converted_slots (events no_strtof example_parser [''prog'', ''-n'', ''extra''])) 2 = 1
     \<and> m_set a'
     \<and> out_arg l' = Some [''extra'']"
proof -
  let ?a = "TypeHandler_new (V_bool False) ''Print line numbers for the message.'' False :: unit AnyTypeArg"
  have "\<exists>p' l'. parse no_strtof example_parser [''prog'', ''-n'', ''extra''] (Some []) = Returned False p' l'
     \<and> out_arg l' = Some [''extra'']"
    by (simp add: run_parse evaluate)
  then obtain p' l' where
    r: "parse no_strtof example_parser [''prog'', ''-n'', ''extra''] (Some []) = Returned False p' l'"
    and o: "out_arg l' = Some [''extra'']"
    by blast
  have h: "heap example_parser 2 = Some ?a" and v: "m_value ?a = V_bool False"
    by (simp_all add: example_parser_def arg_def Let_def TypeHandler_new_def)
  have c: "count_list (converted_slots (events no_strtof example_parser [''prog'', ''-n'', ''extra''])) 2 = 1"
    and c': "2 \<in> set (converted_slots (events no_strtof example_parser [''prog'', ''-n'', ''extra'']))"
    by (simp_all add: run_parse run_spec evaluate)
  note t = boolean_toggle [where strtof = no_strtof and p = example_parser
      and argv = "[''prog'', ''-n'', ''extra'']" and out = "Some []" and ok = False and p' = p'
      and l' = l' and ptr = 2 and a = ?a and b = False and raw = None and i = 1 and l = l']
  from t [THEN conjunct2, THEN conjunct2, THEN mp, OF conjI [OF r conjI [OF h v]]]
  obtain a' where a': "heap p' 2 = Some a'"
    "m_value a'
         = V_bool (if even (count_list (converted_slots
                     (events no_strtof example_parser [''prog'', ''-n'', ''extra''])) 2)
                   then False else \<not> False)"
    "m_set a' \<longleftrightarrow> m_set ?a \<or> 2 \<in> set (converted_slots (events no_strtof example_parser [''prog'', ''-n'', ''extra'']))"
    by blast
  from a'(3) c' have s: "m_set a'" by blast
  show ?thesis
    by (rule exI [where x = p'], rule exI [where x = l'], rule exI [where x = a'])
       (intro conjI v r h a'(1,2) c s o)
qed


subsection \<open>C6: missing required arguments\<close>

text \<open>
  C6 says that \<open>parse\<close> fails for every required argument that is absent from the input.
  It does not when the slot was set by an earlier call: \<open>_set\<close> is never cleared. After a
  call with \<open>-c 3\<close>, a second call on the same parser with no argument at all succeeds
  with an empty report, although the required slot of \<open>--count\<close> and \<open>-c\<close> is absent from
  its input.
\<close>

theorem missing_required_counterexample:
  "(case parse no_strtof required_count [''prog'', ''-c'', ''3''] None of
      Returned ok p1 l1 \<Rightarrow>
        ok \<and> names_of (argData p1) 0 = [''--count'', ''-c'']
        \<and> map_option m_required (heap p1 0) = Some True
        \<and> ''--count'' \<notin> set (tl [''prog'']) \<and> ''-c'' \<notin> set (tl [''prog''])
        \<and> converted_slots (events no_strtof p1 [''prog'']) = []
        \<and> (case parse no_strtof p1 [''prog''] None of
             Returned ok' p2 l2 \<Rightarrow> ok' \<and> p_errorMsg p2 = []
           | _ \<Rightarrow> False)
    | _ \<Rightarrow> False)"
  by (simp add: run_parse run_spec evaluate)

text \<open>
  C6, amended. A declaration with a long and a short name, both new to the map, binds
  exactly the two tokens \<open>--long\<close> and \<open>-short\<close> to the new slot, in the order of the map,
  and the new slot is not set. Let \<open>parse\<close> return, and let a slot have exactly two name
  tokens bound to it, \<open>A\<close> before \<open>B\<close> in the order of the map, be required, not be set
  when \<open>parse\<close> is called, and be absent from the input: no token of the scan is bound to
  it. Then \<open>parse\<close> fails, the slot is unchanged, the missing slots are those that were
  missing before the call and that the scan has not converted, and the error report ends
  with the line that names them, one label each, separated by commas; the label of this
  slot is \<open>A or B\<close>, for a long name \<open>count\<close> and a short name \<open>c\<close> it is \<open>--count or -c\<close>. A
  slot neither of whose name tokens is an argument is absent from the input. Unless help
  is requested, \<open>parse\<close> returns when every slot in the map is a live object and every
  bound token has a further token after it.
\<close>

theorem missing_required:
  "(map_invariant p0 \<and> slot \<notin> snd ` set (argData p0) \<and> LongName \<noteq> [] \<and> ShortName \<noteq> []
      \<and> ''--'' @ LongName \<notin> fst ` set (argData p0) \<and> ''-'' @ ShortName \<notin> fst ` set (argData p0)
      \<and> ''--'' @ LongName \<noteq> ''-'' @ ShortName \<longrightarrow>
        names_of (argData (arg slot LongName ShortName d helpMessage True p0)) slot
          = (if ''-'' @ ShortName \<le> ''--'' @ LongName
             then [''-'' @ ShortName, ''--'' @ LongName]
             else [''--'' @ LongName, ''-'' @ ShortName])
        \<and> heap (arg slot LongName ShortName d helpMessage True p0) slot
            = Some \<lparr>m_value = d, m_helpMsg = helpMessage, m_errorMsg = [],
                    m_required = True, m_set = False\<rparr>)
   \<and> (parse strtof p argv out = Returned ok p' l' \<and> names_of (argData p) slot = [A, B]
      \<and> heap p slot = Some a \<and> m_required a \<and> \<not> m_set a
      \<and> slot \<notin> set (converted_slots (events strtof p argv)) \<longrightarrow>
        \<not> ok \<and> heap p' slot = Some a
        \<and> slot \<in> set (missing (argData p) (heap p'))
        \<and> distinct (missing (argData p) (heap p'))
        \<and> missing (argData p) (heap p')
            = filter (\<lambda>q. q \<notin> set (converted_slots (events strtof p argv)))
                (missing (argData p) (heap p))
        \<and> label (argData p) slot = A @ '' or '' @ B
        \<and> p_errorMsg p'
            = join [CHR 0x0A]
                (error_lines (AllowUnknownArguments p) (events strtof p argv)
                   @ [''The following required arguments was not set: ''
                        @ join '', '' (map (label (argData p)) (missing (argData p) (heap p')))]))
   \<and> (names_of (argData p) slot = [A, B] \<and> A \<notin> set (tl argv) \<and> B \<notin> set (tl argv) \<longrightarrow>
        slot \<notin> set (converted_slots (events strtof p argv)))
   \<and> (no_dangling p \<and> followed (bound p) argv \<and> \<not> help_requested p argv \<longrightarrow>
        (\<exists>ok p' l'. parse strtof p argv out = Returned ok p' l'))"
proof -
  have 2: "\<not> ok \<and> heap p' slot = Some a
        \<and> slot \<in> set (missing (argData p) (heap p'))
        \<and> distinct (missing (argData p) (heap p'))
        \<and> missing (argData p) (heap p')
            = filter (\<lambda>q. q \<notin> set (converted_slots (events strtof p argv)))
                (missing (argData p) (heap p))
        \<and> label (argData p) slot = A @ '' or '' @ B
        \<and> p_errorMsg p'
            = join [CHR 0x0A]
                (error_lines (AllowUnknownArguments p) (events strtof p argv)
                   @ [''The following required arguments was not set: ''
                        @ join '', '' (map (label (argData p)) (missing (argData p) (heap p')))])"
    if r: "parse strtof p argv out = Returned ok p' l'"
      and n: "names_of (argData p) slot = [A, B]"
      and a: "heap p slot = Some a" "m_required a" "\<not> m_set a"
      and c: "slot \<notin> set (converted_slots (events strtof p argv))"
  proof -
    from unset_stays_unset [OF r c] a(1) have h: "heap p' slot = Some a" by simp
    from n have "slot \<in> snd ` set (argData p)"
      by (force simp: names_of_def filter_eq_Cons_iff)
    with h a have m: "slot \<in> set (missing (argData p) (heap p'))"
      by (simp add: set_missing is_missing_def)
    then have ne: "missing (argData p) (heap p') \<noteq> []" by auto
    have lb: "label (argData p) slot = A @ '' or '' @ B"
      using n by (simp add: label_def)
    from summary_line [OF r ne] missing_after [OF r] h m lb show ?thesis
      by (simp add: missing_distinct)
  qed
  have 3: "slot \<notin> set (converted_slots (events strtof p argv))"
    if "names_of (argData p) slot = [A, B]" "A \<notin> set (tl argv)" "B \<notin> set (tl argv)"
    using absent_not_converted [of p slot argv strtof] that by simp
  have 1: "heap (arg slot LongName ShortName d helpMessage True p0) slot
            = Some \<lparr>m_value = d, m_helpMsg = helpMessage, m_errorMsg = [],
                    m_required = True, m_set = False\<rparr>"
    by (simp add: heap_arg TypeHandler_new_def)
  from names_of_arg [of p0 slot LongName ShortName d helpMessage True] 1 2 3
    parse_returns [of p argv strtof out]
  show ?thesis
    by blast
qed

theorem missing_required_witness:
  "\<exists>p' l'.
     (map_invariant (Parser_default :: unit Parser)
      \<and> 0 \<notin> snd ` set (argData (Parser_default :: unit Parser))
      \<and> ''count'' \<noteq> [] \<and> ''c'' \<noteq> []
      \<and> ''--'' @ ''count'' \<notin> fst ` set (argData (Parser_default :: unit Parser))
      \<and> ''-'' @ ''c'' \<notin> fst ` set (argData (Parser_default :: unit Parser))
      \<and> ''--'' @ ''count'' \<noteq> ''-'' @ ''c''
      \<and> names_of (argData (arg 0 ''count'' ''c'' (V_int 0) ''The count.'' True
                              (Parser_default :: unit Parser))) 0
          = (if ''-'' @ ''c'' \<le> ''--'' @ ''count''
             then [''-'' @ ''c'', ''--'' @ ''count'']
             else [''--'' @ ''count'', ''-'' @ ''c''])
      \<and> heap (arg 0 ''count'' ''c'' (V_int 0) ''The count.'' True (Parser_default :: unit Parser)) 0
          = Some \<lparr>m_value = V_int 0, m_helpMsg = ''The count.'', m_errorMsg = [],
                  m_required = True, m_set = False\<rparr>)
     \<and> (parse no_strtof count_parser [''prog'', ''-f'', ''x'', ''--bad''] None = Returned False p' l'
      \<and> names_of (argData count_parser) 0 = [''--count'', ''-c'']
      \<and> heap count_parser 0 = Some (TypeHandler_new (V_int 0) ''The count.'' True)
      \<and> m_required (TypeHandler_new (V_int 0) ''The count.'' True :: unit AnyTypeArg)
      \<and> \<not> m_set (TypeHandler_new (V_int 0) ''The count.'' True :: unit AnyTypeArg)
      \<and> 0 \<notin> set (converted_slots (events no_strtof count_parser [''prog'', ''-f'', ''x'', ''--bad'']))
      \<and> heap p' 0 = Some (TypeHandler_new (V_int 0) ''The count.'' True)
      \<and> missing (argData count_parser) (heap count_parser) = [0, 1]
      \<and> converted_slots (events no_strtof count_parser [''prog'', ''-f'', ''x'', ''--bad'']) = [1]
      \<and> missing (argData count_parser) (heap p')
          = filter (\<lambda>q. q \<notin> set (converted_slots
                                   (events no_strtof count_parser [''prog'', ''-f'', ''x'', ''--bad''])))
              (missing (argData count_parser) (heap count_parser))
      \<and> label (argData count_parser) 0 = ''--count'' @ '' or '' @ ''-c''
      \<and> p_errorMsg p'
          = join [CHR 0x0A]
              (error_lines (AllowUnknownArguments count_parser)
                 (events no_strtof count_parser [''prog'', ''-f'', ''x'', ''--bad''])
                 @ [''The following required arguments was not set: ''
                      @ join '', '' (map (label (argData count_parser))
                                       (missing (argData count_parser) (heap p')))])
      \<and> p_errorMsg p'
          = ''Unknown argument: --bad'' @ [CHR 0x0A]
              @ ''The following required arguments was not set: --count or -c'')
     \<and> (''--count'' \<notin> set (tl [''prog'', ''-f'', ''x'', ''--bad''])
      \<and> ''-c'' \<notin> set (tl [''prog'', ''-f'', ''x'', ''--bad'']))
     \<and> (no_dangling count_parser
      \<and> followed (bound count_parser) [''prog'', ''-f'', ''x'', ''--bad'']
      \<and> \<not> help_requested count_parser [''prog'', ''-f'', ''x'', ''--bad'']
      \<and> (\<exists>ok p' l'. parse no_strtof count_parser [''prog'', ''-f'', ''x'', ''--bad''] None
                       = Returned ok p' l'))"
proof -
  let ?argv = "[''prog'', ''-f'', ''x'', ''--bad'']"
  let ?a = "TypeHandler_new (V_int 0) ''The count.'' True :: unit AnyTypeArg"
  have "\<exists>p' l'. parse no_strtof count_parser ?argv None = Returned False p' l'
     \<and> p_errorMsg p' = ''Unknown argument: --bad'' @ [CHR 0x0A]
              @ ''The following required arguments was not set: --count or -c''"
    by (simp add: run_parse evaluate)
  then obtain p' l' where
    r: "parse no_strtof count_parser ?argv None = Returned False p' l'"
    and e: "p_errorMsg p' = ''Unknown argument: --bad'' @ [CHR 0x0A]
              @ ''The following required arguments was not set: --count or -c''"
    by blast
  have n: "names_of (argData count_parser) 0 = [''--count'', ''-c'']"
    by (simp add: run_parse names_of_def)
  have a: "heap count_parser 0 = Some ?a" "m_required ?a" "\<not> m_set ?a"
    by (simp_all add: run_parse evaluate)
  have cs: "converted_slots (events no_strtof count_parser ?argv) = [1]"
    by (simp add: run_parse run_spec evaluate)
  then have c: "0 \<notin> set (converted_slots (events no_strtof count_parser ?argv))"
    by simp
  have m0: "missing (argData count_parser) (heap count_parser) = [0, 1]"
    by (simp add: run_parse run_spec evaluate)
  have d: "map_invariant (Parser_default :: unit Parser)"
    "0 \<notin> snd ` set (argData (Parser_default :: unit Parser))"
    "''count'' \<noteq> []" "''c'' \<noteq> []"
    "''--'' @ ''count'' \<notin> fst ` set (argData (Parser_default :: unit Parser))"
    "''-'' @ ''c'' \<notin> fst ` set (argData (Parser_default :: unit Parser))"
    "''--'' @ ''count'' \<noteq> ''-'' @ ''c''"
    by (simp_all add: map_invariant_def Parser_default_def)
  have ab: "''--count'' \<notin> set (tl ?argv)" "''-c'' \<notin> set (tl ?argv)"
    by simp_all
  have f: "no_dangling count_parser" "followed (bound count_parser) ?argv"
    "\<not> help_requested count_parser ?argv"
    by (simp_all add: no_dangling_def followed_def bound_def help_requested_def run_parse upt_rec)
  note t = missing_required [where strtof = no_strtof and p = count_parser and argv = ?argv
      and out = None and ok = False and p' = p' and l' = l' and slot = 0 and A = "''--count''"
      and B = "''-c''" and a = ?a and p0 = "Parser_default :: unit Parser" and LongName = "''count''"
      and ShortName = "''c''" and d = "V_int 0" and helpMessage = "''The count.''"]
  note t1 = t [THEN conjunct1, THEN mp, OF conjI [OF d(1) conjI [OF d(2) conjI [OF d(3)
      conjI [OF d(4) conjI [OF d(5) conjI [OF d(6) d(7)]]]]]]]
  note t2 = t [THEN conjunct2, THEN conjunct1, THEN mp, OF conjI [OF r conjI [OF n conjI [OF a(1)
      conjI [OF a(2) conjI [OF a(3) c]]]]]]
  note t4 = t [THEN conjunct2, THEN conjunct2, THEN conjunct2, THEN mp,
      OF conjI [OF f(1) conjI [OF f(2) f(3)]]]
  note h' = t2 [THEN conjunct2, THEN conjunct1]
  note ma = t2 [THEN conjunct2, THEN conjunct2, THEN conjunct2, THEN conjunct2, THEN conjunct1]
  note lb = t2 [THEN conjunct2, THEN conjunct2, THEN conjunct2, THEN conjunct2, THEN conjunct2,
      THEN conjunct1]
  note em = t2 [THEN conjunct2, THEN conjunct2, THEN conjunct2, THEN conjunct2, THEN conjunct2,
      THEN conjunct2]
  show ?thesis
    by (rule exI [where x = p'], rule exI [where x = l'])
       (intro conjI d t1 [THEN conjunct1] t1 [THEN conjunct2] r n a c h' m0 cs ma lb em e ab f t4)
qed


subsection \<open>C7: unknown arguments\<close>

text \<open>
  C7. The iteration of the loop at a token bound to no slot appends the token to the
  output vector, if the caller gave one, and moves the cursor by exactly one, leaving
  the slots alone. When unknown arguments are not allowed it also appends the line
  \<open>Unknown argument: <token>\<close> to the error message, after a newline unless the message
  is empty, and sets the error flag; when they are allowed it changes neither. When
  \<open>parse\<close> returns, the output vector has grown by the unbound tokens of the scan in
  order, each an argument bound to no slot. For every such token the scan goes on at the
  next position, the token is in the output vector between the unbound tokens before
  and after it, and the error message is the lines of the events before it, its own
  line \<open>Unknown argument: <token>\<close> unless unknown arguments are allowed, the lines of
  the events after it and the summary line, joined by newlines; \<open>parse\<close> succeeds only
  if unknown arguments are allowed.
\<close>

theorem unknown_argument:
  "(i < length argv \<and> map_of (argData p) (argv ! i) = None \<longrightarrow>
      step strtof argv i (p, l)
        = Inr (i + 1,
               (if AllowUnknownArguments p then p
                else p\<lparr>p_errorMsg :=
                         (if p_errorMsg p = [] then ''Unknown argument: '' @ argv ! i
                          else p_errorMsg p @ [CHR 0x0A] @ ''Unknown argument: '' @ argv ! i)\<rparr>),
               l\<lparr>reads := reads l @ [i],
                 out_arg := map_option (\<lambda>v. v @ [argv ! i]) (out_arg l),
                 error := error l \<or> \<not> AllowUnknownArguments p\<rparr>))
   \<and> (parse strtof p argv out = Returned ok p' l' \<longrightarrow>
        out_arg l' = map_option (\<lambda>v. v @ unmatched (events strtof p argv)) out
        \<and> (\<forall>tok\<in>set (unmatched (events strtof p argv)).
             \<exists>j. 1 \<le> j \<and> j < length argv \<and> tok = argv ! j \<and> map_of (argData p) tok = None))
   \<and> (parse strtof p argv out = Returned ok p' l' \<and> k < length (events strtof p argv)
      \<and> events strtof p argv ! k = Unknown_argument j tok \<longrightarrow>
        1 \<le> j \<and> j < length argv \<and> tok = argv ! j \<and> map_of (argData p) tok = None
        \<and> drop (Suc k) (events strtof p argv)
            = spec_scan strtof (argData p) (types_of p) argv (j + 1)
        \<and> out_arg l'
            = map_option (\<lambda>v. v @ unmatched (take k (events strtof p argv)) @ [tok]
                                 @ unmatched (drop (Suc k) (events strtof p argv))) out
        \<and> p_errorMsg p'
            = join [CHR 0x0A]
                (error_lines (AllowUnknownArguments p) (take k (events strtof p argv))
                   @ (if AllowUnknownArguments p then [] else [''Unknown argument: '' @ tok])
                   @ error_lines (AllowUnknownArguments p) (drop (Suc k) (events strtof p argv))
                   @ (if missing (argData p) (heap p') = [] then []
                      else [summary (argData p) (heap p')]))
        \<and> (ok \<longrightarrow> AllowUnknownArguments p))"
proof -
  let ?evs = "events strtof p argv"
  have 1: "step strtof argv i (p, l)
        = Inr (i + 1,
               (if AllowUnknownArguments p then p
                else p\<lparr>p_errorMsg :=
                         (if p_errorMsg p = [] then ''Unknown argument: '' @ argv ! i
                          else p_errorMsg p @ [CHR 0x0A] @ ''Unknown argument: '' @ argv ! i)\<rparr>),
               l\<lparr>reads := reads l @ [i],
                 out_arg := map_option (\<lambda>v. v @ [argv ! i]) (out_arg l),
                 error := error l \<or> \<not> AllowUnknownArguments p\<rparr>)"
    if "map_of (argData p) (argv ! i) = None"
    using step_unknown [OF that, of strtof l] by (simp add: append_line_def)
  have pos: "\<exists>j. 1 \<le> j \<and> j < length argv \<and> tok = argv ! j \<and> map_of (argData p) tok = None"
    if "tok \<in> set (unmatched ?evs)" for tok
  proof -
    from that obtain ev where ev: "ev \<in> set ?evs" "unmatched_token ev = Some tok"
      by (auto simp: unmatched_def List.map_filter_def)
    from ev(2) obtain j where "ev = Unknown_argument j tok" by (cases ev) auto
    with spec_scan_events [OF ev(1) [unfolded events_def]] show ?thesis by auto
  qed
  have 2: "out_arg l' = map_option (\<lambda>v. v @ unmatched ?evs) out
        \<and> (\<forall>tok\<in>set (unmatched ?evs).
             \<exists>j. 1 \<le> j \<and> j < length argv \<and> tok = argv ! j \<and> map_of (argData p) tok = None)"
    if r: "parse strtof p argv out = Returned ok p' l'"
    using report_message(3) [OF r] pos by blast
  have 3: "1 \<le> j \<and> j < length argv \<and> tok = argv ! j \<and> map_of (argData p) tok = None
        \<and> drop (Suc k) ?evs = spec_scan strtof (argData p) (types_of p) argv (j + 1)
        \<and> out_arg l'
            = map_option (\<lambda>v. v @ unmatched (take k ?evs) @ [tok] @ unmatched (drop (Suc k) ?evs)) out
        \<and> p_errorMsg p'
            = join [CHR 0x0A]
                (error_lines (AllowUnknownArguments p) (take k ?evs)
                   @ (if AllowUnknownArguments p then [] else [''Unknown argument: '' @ tok])
                   @ error_lines (AllowUnknownArguments p) (drop (Suc k) ?evs)
                   @ (if missing (argData p) (heap p') = [] then []
                      else [summary (argData p) (heap p')]))
        \<and> (ok \<longrightarrow> AllowUnknownArguments p)"
    if r: "parse strtof p argv out = Returned ok p' l'"
      and k: "k < length ?evs" and e: "?evs ! k = Unknown_argument j tok"
  proof -
    from k e have "Unknown_argument j tok \<in> set ?evs" by (metis nth_mem)
    from spec_scan_events [OF this [unfolded events_def]]
    have a: "1 \<le> j \<and> j < length argv \<and> tok = argv ! j \<and> map_of (argData p) tok = None"
      by auto
    from spec_scan_drop [OF k [unfolded events_def] e [unfolded events_def]]
    have b: "drop (Suc k) ?evs = spec_scan strtof (argData p) (types_of p) argv (j + 1)"
      by (simp add: events_def)
    note el = error_lines_unknown_at [OF k e, of "AllowUnknownArguments p"]
    from report_message(3) [OF r] unmatched_unknown_at [OF k e]
    have c: "out_arg l'
            = map_option (\<lambda>v. v @ unmatched (take k ?evs) @ [tok] @ unmatched (drop (Suc k) ?evs)) out"
      by simp
    from report_message(1) [OF r] el
    have d: "p_errorMsg p'
            = join [CHR 0x0A]
                (error_lines (AllowUnknownArguments p) (take k ?evs)
                   @ (if AllowUnknownArguments p then [] else [''Unknown argument: '' @ tok])
                   @ error_lines (AllowUnknownArguments p) (drop (Suc k) ?evs)
                   @ (if missing (argData p) (heap p') = [] then []
                      else [summary (argData p) (heap p')]))"
      by simp
    from report_message(2) [OF r] el have f: "ok \<longrightarrow> AllowUnknownArguments p"
      by auto
    from a b c d f show ?thesis by blast
  qed
  from 1 2 3 show ?thesis by blast
qed

theorem unknown_argument_witness:
  "\<exists>p' l' q' k'.
     (4 < length [''prog'', ''-x'', ''-t'', ''3x'', ''-y'']
      \<and> map_of (argData example_parser) ([''prog'', ''-x'', ''-t'', ''3x'', ''-y''] ! 4) = None
      \<and> step no_strtof [''prog'', ''-x'', ''-t'', ''3x'', ''-y''] 4
           (example_parser\<lparr>p_errorMsg := ''Unknown argument: -x''\<rparr>, locals0 example_parser [] (Some [''-x'']))
         = Inr (5, example_parser\<lparr>p_errorMsg := ''Unknown argument: -x'' @ [CHR 0x0A] @ ''Unknown argument: -y''\<rparr>,
                \<lparr>error = True, out_arg = Some [''-x'', ''-y''], reads = [4]\<rparr>))
     \<and> (parse no_strtof example_parser [''prog'', ''-x'', ''-t'', ''3x'', ''-y''] (Some []) = Returned False p' l'
      \<and> 2 < length (events no_strtof example_parser [''prog'', ''-x'', ''-t'', ''3x'', ''-y''])
      \<and> events no_strtof example_parser [''prog'', ''-x'', ''-t'', ''3x'', ''-y''] ! 2
          = Unknown_argument 4 ''-y''
      \<and> \<not> AllowUnknownArguments example_parser
      \<and> out_arg l' = Some [''-x'', ''-y'']
      \<and> p_errorMsg p'
          = join [CHR 0x0A]
              (error_lines (AllowUnknownArguments example_parser)
                 (take 2 (events no_strtof example_parser [''prog'', ''-x'', ''-t'', ''3x'', ''-y'']))
               @ (if AllowUnknownArguments example_parser then [] else [''Unknown argument: '' @ ''-y''])
               @ error_lines (AllowUnknownArguments example_parser)
                   (drop (Suc 2) (events no_strtof example_parser [''prog'', ''-x'', ''-t'', ''3x'', ''-y'']))
               @ (if missing (argData example_parser) (heap p') = [] then []
                  else [summary (argData example_parser) (heap p')]))
      \<and> p_errorMsg p'
          = ''Unknown argument: -x'' @ [CHR 0x0A]
            @ ''Error in argument: -t, \"3x\" is not a positive integer.'' @ [CHR 0x0A]
            @ ''Unknown argument: -y'' @ [CHR 0x0A]
            @ ''The following required arguments was not set: --msg or -m'')
     \<and> (AllowUnknownArguments (example_parser\<lparr>AllowUnknownArguments := True\<rparr>)
      \<and> parse no_strtof (example_parser\<lparr>AllowUnknownArguments := True\<rparr>)
          [''prog'', ''-x'', ''-t'', ''3x'', ''-y''] (Some []) = Returned False q' k'
      \<and> 2 < length (events no_strtof (example_parser\<lparr>AllowUnknownArguments := True\<rparr>)
                      [''prog'', ''-x'', ''-t'', ''3x'', ''-y''])
      \<and> events no_strtof (example_parser\<lparr>AllowUnknownArguments := True\<rparr>)
          [''prog'', ''-x'', ''-t'', ''3x'', ''-y''] ! 2 = Unknown_argument 4 ''-y''
      \<and> out_arg k' = Some [''-x'', ''-y'']
      \<and> p_errorMsg q'
          = ''Error in argument: -t, \"3x\" is not a positive integer.'' @ [CHR 0x0A]
            @ ''The following required arguments was not set: --msg or -m'')"
proof -
  let ?argv = "[''prog'', ''-x'', ''-t'', ''3x'', ''-y'']"
  let ?q = "example_parser\<lparr>AllowUnknownArguments := True\<rparr>"
  let ?p4 = "example_parser\<lparr>p_errorMsg := ''Unknown argument: -x''\<rparr>"
  let ?l4 = "locals0 example_parser [] (Some [''-x''])"
  have "\<exists>p' l'. parse no_strtof example_parser ?argv (Some []) = Returned False p' l'
          \<and> out_arg l' = Some [''-x'', ''-y'']
          \<and> p_errorMsg p'
              = ''Unknown argument: -x'' @ [CHR 0x0A]
                @ ''Error in argument: -t, \"3x\" is not a positive integer.'' @ [CHR 0x0A]
                @ ''Unknown argument: -y'' @ [CHR 0x0A]
                @ ''The following required arguments was not set: --msg or -m''"
    by (simp add: run_parse evaluate)
  then obtain p' l' where
    r: "parse no_strtof example_parser ?argv (Some []) = Returned False p' l'"
    and o: "out_arg l' = Some [''-x'', ''-y'']"
    and e: "p_errorMsg p'
              = ''Unknown argument: -x'' @ [CHR 0x0A]
                @ ''Error in argument: -t, \"3x\" is not a positive integer.'' @ [CHR 0x0A]
                @ ''Unknown argument: -y'' @ [CHR 0x0A]
                @ ''The following required arguments was not set: --msg or -m''"
    by blast
  have "\<exists>q' k'. parse no_strtof ?q ?argv (Some []) = Returned False q' k'
          \<and> out_arg k' = Some [''-x'', ''-y'']
          \<and> p_errorMsg q'
              = ''Error in argument: -t, \"3x\" is not a positive integer.'' @ [CHR 0x0A]
                @ ''The following required arguments was not set: --msg or -m''"
    by (simp add: run_parse evaluate)
  then obtain q' k' where
    r': "parse no_strtof ?q ?argv (Some []) = Returned False q' k'"
    and o': "out_arg k' = Some [''-x'', ''-y'']"
    and e': "p_errorMsg q'
              = ''Error in argument: -t, \"3x\" is not a positive integer.'' @ [CHR 0x0A]
                @ ''The following required arguments was not set: --msg or -m''"
    by blast
  have h: "4 < length ?argv" "map_of (argData example_parser) (?argv ! 4) = None"
    "\<not> AllowUnknownArguments example_parser" "AllowUnknownArguments ?q"
    by (simp_all add: run_parse)
  have h4: "map_of (argData ?p4) (?argv ! 4) = None"
    by (simp add: run_parse)
  have ev: "2 < length (events no_strtof example_parser ?argv)"
    "events no_strtof example_parser ?argv ! 2 = Unknown_argument 4 ''-y''"
    "2 < length (events no_strtof ?q ?argv)"
    "events no_strtof ?q ?argv ! 2 = Unknown_argument 4 ''-y''"
    by (simp_all add: run_parse run_spec evaluate)
  note t = unknown_argument [where strtof = no_strtof and p = example_parser and argv = ?argv
      and out = "Some []" and ok = False and p' = p' and l' = l' and k = 2 and j = 4
      and tok = "''-y''"]
  note s = unknown_argument [where strtof = no_strtof and p = ?p4 and argv = ?argv
      and i = 4 and l = ?l4, THEN conjunct1, THEN mp, OF conjI [OF h(1) h4]]
  have s': "step no_strtof ?argv 4 (?p4, ?l4)
         = Inr (5, example_parser\<lparr>p_errorMsg := ''Unknown argument: -x'' @ [CHR 0x0A] @ ''Unknown argument: -y''\<rparr>,
                \<lparr>error = True, out_arg = Some [''-x'', ''-y''], reads = [4]\<rparr>)"
    unfolding s by (simp add: run_parse locals0_def)
  note t3 = t [THEN conjunct2, THEN conjunct2, THEN mp, OF conjI [OF r conjI [OF ev(1) ev(2)]]]
  note m = t3 [THEN conjunct2, THEN conjunct2, THEN conjunct2, THEN conjunct2, THEN conjunct2,
      THEN conjunct2, THEN conjunct1]
  show ?thesis
    by (rule exI [where x = p'], rule exI [where x = l'], rule exI [where x = q'],
        rule exI [where x = k'])
       (intro conjI h s' r ev o m e r' o' e')
qed


subsection \<open>C8: reads of the argument vector\<close>

text \<open>
  C8 says that \<open>parse\<close> reads only positions of arguments when every token bound to a
  consuming slot (a string or a number) has a further token after it. It does not: the
  next position is read at every bound token, before the type of the slot is known. With
  the boolean flag \<open>-n\<close> as the last argument the loop reads position 2 of a vector of
  length 2, the terminating null pointer, and with a character flag last the conversion
  dereferences that null pointer.
\<close>

theorem reads_in_bounds_counterexample:
  "followed (bound_consuming example_parser) [''prog'', ''-n'']
   \<and> (case parse no_strtof example_parser [''prog'', ''-n''] None of
         Returned ok p' l' \<Rightarrow> reads l' = [1, 1, 2] \<and> \<not> in_bounds [''prog'', ''-n''] l'
       | _ \<Rightarrow> False)
   \<and> followed (bound_consuming char_parser) [''prog'', ''-s'']
   \<and> parse no_strtof char_parser [''prog'', ''-s''] None = Undefined NullDereference"
  by (simp add: followed_def bound_consuming_def in_bounds_def run_parse run_spec evaluate)

text \<open>
  C8, amended. When every token bound to a slot, of whatever type, has a further token
  after it, \<open>parse\<close> exits or returns, and every position of the argument vector it has
  read is that of an argument.
\<close>

theorem reads_in_bounds:
  assumes "no_dangling p" "followed (bound p) argv"
  shows "(\<exists>message. parse strtof p argv out = Exit 0 message (locals0 p argv out)
            \<and> in_bounds argv (locals0 p argv out))
         \<or> (\<exists>ok p' l'. parse strtof p argv out = Returned ok p' l' \<and> in_bounds argv l')"
proof (cases "help_requested p argv")
  case True
  from GetHelpMessage_defined [OF assms(1)] obtain message where
    "GetHelpMessage (p\<lparr>p_errorMsg := []\<rparr>) = Inr message"
    by blast
  with parse_help [OF True, of strtof out]
  have "parse strtof p argv out = Exit 0 message (locals0 p argv out)" by simp
  moreover from True have "in_bounds argv (locals0 p argv out)"
    by (simp add: in_bounds_def locals0_def help_requested_def)
  ultimately show ?thesis by blast
next
  case False
  let ?p0 = "p\<lparr>p_errorMsg := []\<rparr>"
  let ?l0 = "locals0 p argv out"
  have nd0: "no_dangling (fst (?p0, ?l0))" using assms(1) by (simp add: no_dangling_def)
  have "bound ?p0 = bound p" by (rule ext) (simp add: bound_def)
  with assms(2) have fo0: "followed (bound (fst (?p0, ?l0))) argv" by simp
  from scan_defined [OF nd0 fo0, of 1 strtof] obtain p1 l1 where
    sc: "scan strtof argv 1 (?p0, ?l0) = Inr (p1, l1)"
    by auto
  from scan_run [OF sc] have run: "run (events strtof p argv) (?p0, ?l0) (p1, l1)"
    by (simp add: events_def)
  from run_frame [OF run] have ad: "argData p1 = argData p" by simp
  have "\<forall>b\<in>set (argData p1). heap p1 (snd b) \<noteq> None"
  proof
    fix b assume "b \<in> set (argData p1)"
    with assms(1) ad obtain a where "heap ?p0 (snd b) = Some a"
      by (auto simp: no_dangling_def list_all_iff)
    from run_heap_Some [OF run, of "snd b" a] this show "heap p1 (snd b) \<noteq> None" by auto
  qed
  from required_loop_result [OF this, of "error l1"] obtain e rs where
    rl: "required_loop (heap p1) (argData p1) (error l1, []) = Inr (e, rs)"
    by blast
  from parse_scan [OF False, of strtof out] sc rl have
    r: "parse strtof p argv out
          = Returned (\<not> e) (p1\<lparr>p_errorMsg := report_required e rs (p_errorMsg p1)\<rparr>) l1"
    by simp
  from run_reads [OF run] have
    rd: "reads l1 = reads ?l0 @ concat (map event_reads (events strtof p argv))"
    by simp
  have "list_all (\<lambda>k. 1 \<le> k \<and> k < length argv) (reads ?l0)"
    by (simp add: locals0_def)
  moreover have "list_all (\<lambda>k. 1 \<le> k \<and> k < length argv)
                   (concat (map event_reads (events strtof p argv)))"
    using events_in_bounds [OF assms(2), of _ strtof]
    by (auto simp: list_all_iff)
  ultimately have "in_bounds argv l1"
    by (simp add: in_bounds_def rd)
  with r show ?thesis by blast
qed

theorem reads_in_bounds_witness:
  "no_dangling example_parser
   \<and> followed (bound example_parser) [''prog'', ''-n'', ''-m'', ''hi'']
   \<and> ((\<exists>message. parse no_strtof example_parser [''prog'', ''-n'', ''-m'', ''hi''] None
                     = Exit 0 message (locals0 example_parser [''prog'', ''-n'', ''-m'', ''hi''] None)
            \<and> in_bounds [''prog'', ''-n'', ''-m'', ''hi'']
                 (locals0 example_parser [''prog'', ''-n'', ''-m'', ''hi''] None))
         \<or> (\<exists>ok p' l'. parse no_strtof example_parser [''prog'', ''-n'', ''-m'', ''hi''] None
                          = Returned ok p' l'
               \<and> in_bounds [''prog'', ''-n'', ''-m'', ''hi''] l'))
   \<and> (case parse no_strtof example_parser [''prog'', ''-n'', ''-m'', ''hi''] None of
         Returned ok p' l' \<Rightarrow> ok \<and> reads l' = [1, 2, 2, 3]
       | _ \<Rightarrow> False)"
proof -
  have h: "no_dangling example_parser"
    "followed (bound example_parser) [''prog'', ''-n'', ''-m'', ''hi'']"
    by (simp_all add: no_dangling_def followed_def bound_def run_parse upt_rec)
  have e: "(case parse no_strtof example_parser [''prog'', ''-n'', ''-m'', ''hi''] None of
         Returned ok p' l' \<Rightarrow> ok \<and> reads l' = [1, 2, 2, 3]
       | _ \<Rightarrow> False)"
    by (simp add: run_parse evaluate)
  show ?thesis
    by (intro conjI h e reads_in_bounds [OF h])
qed


subsection \<open>C9: typed retrieval\<close>

text \<open>
  C9. \<open>getValue<T>\<close> throws \<open>runtime_error("Types does not match.")\<close> exactly when \<open>T\<close> is
  not the type of the slot, and returns the stored value otherwise. The exception is the
  result of the call on the slot; the parser's error report is no part of it. The type
  of a slot is the one it was declared with: \<open>arg\<close> creates the slot with the type of the
  default value, and no conversion changes it.
\<close>

theorem getValue_type_check:
  "(getValue T a = Inl (Runtime_error ''Types does not match.'') \<longleftrightarrow> T \<noteq> getTypeInfo a)
   \<and> (T = getTypeInfo a \<longrightarrow> getValue T a = Inr (m_value a))
   \<and> (setValue strtof a raw = Inr (r, a') \<longrightarrow> getTypeInfo a' = getTypeInfo a)
   \<and> (\<exists>a0. heap (arg ptr LongName ShortName d helpMessage req p) ptr = Some a0
         \<and> getTypeInfo a0 = typeid_of d \<and> getValue (typeid_of d) a0 = Inr d)"
proof -
  have "setValue strtof a raw = Inr (r, a') \<Longrightarrow> getTypeInfo a' = getTypeInfo a"
    using setValueChar_type [of strtof "a\<lparr>m_set := True\<rparr>" raw r a']
    by (simp add: setValue_def getTypeInfo_def)
  moreover have "\<exists>a0. heap (arg ptr LongName ShortName d helpMessage req p) ptr = Some a0
         \<and> getTypeInfo a0 = typeid_of d \<and> getValue (typeid_of d) a0 = Inr d"
    by (simp add: arg_def Let_def getValue_def getTypeInfo_def TypeHandler_new_def)
  ultimately show ?thesis
    by (auto simp: getValue_def)
qed

theorem getValue_type_check_witness:
  "T_int \<noteq> getTypeInfo (TypeHandler_new (V_bool False) [] False :: unit AnyTypeArg)
   \<and> getValue T_int (TypeHandler_new (V_bool False) [] False :: unit AnyTypeArg) = Inl (Runtime_error ''Types does not match.'')
   \<and> T_bool = getTypeInfo (TypeHandler_new (V_bool False) [] False :: unit AnyTypeArg)
   \<and> getValue T_bool (TypeHandler_new (V_bool False) [] False :: unit AnyTypeArg)
       = Inr (m_value (TypeHandler_new (V_bool False) [] False :: unit AnyTypeArg))
   \<and> setValue (\<lambda>s. ((), 0)) (TypeHandler_new (V_bool False) [] False :: unit AnyTypeArg) None
       = Inr (0, (TypeHandler_new (V_bool False) [] False :: unit AnyTypeArg)\<lparr>m_value := V_bool True, m_set := True\<rparr>)
   \<and> getTypeInfo ((TypeHandler_new (V_bool False) [] False :: unit AnyTypeArg)\<lparr>m_value := V_bool True, m_set := True\<rparr>)
       = getTypeInfo (TypeHandler_new (V_bool False) [] False :: unit AnyTypeArg)"
proof -
  have h: "T_int \<noteq> getTypeInfo (TypeHandler_new (V_bool False) [] False :: unit AnyTypeArg)"
    "T_bool = getTypeInfo (TypeHandler_new (V_bool False) [] False :: unit AnyTypeArg)"
    "setValue (\<lambda>s. ((), 0)) (TypeHandler_new (V_bool False) [] False :: unit AnyTypeArg) None
       = Inr (0, (TypeHandler_new (V_bool False) [] False :: unit AnyTypeArg)\<lparr>m_value := V_bool True, m_set := True\<rparr>)"
    by (simp_all add: setValue_def TypeHandler_new_def getTypeInfo_def)
  note t1 = getValue_type_check [where T = T_int and a = "TypeHandler_new (V_bool False) [] False :: unit AnyTypeArg"
        and strtof = "\<lambda>s. ((), 0)" and raw = None and r = 0
        and a' = "(TypeHandler_new (V_bool False) [] False :: unit AnyTypeArg)\<lparr>m_value := V_bool True, m_set := True\<rparr>"
        and ptr = 0 and LongName = "''num''" and ShortName = "''n''" and d = "V_bool False"
        and helpMessage = "[]" and req = False and p = "Parser_default :: unit Parser"]
  note t2 = getValue_type_check [where T = T_bool and a = "TypeHandler_new (V_bool False) [] False :: unit AnyTypeArg"
        and strtof = "\<lambda>s. ((), 0)" and raw = None and r = 0
        and a' = "(TypeHandler_new (V_bool False) [] False :: unit AnyTypeArg)\<lparr>m_value := V_bool True, m_set := True\<rparr>"
        and ptr = 0 and LongName = "''num''" and ShortName = "''n''" and d = "V_bool False"
        and helpMessage = "[]" and req = False and p = "Parser_default :: unit Parser"]
  note c1 = t1 [THEN conjunct1, THEN iffD2, OF h(1)]
  note c2 = t2 [THEN conjunct2, THEN conjunct1, THEN mp, OF h(2)]
  note c3 = t2 [THEN conjunct2, THEN conjunct2, THEN conjunct1, THEN mp, OF h(3)]
  show ?thesis
    by (intro conjI h c1 c2 c3)
qed

subsection \<open>C10: a minus sign before an unsigned value\<close>

text \<open>
  C10. For every slot of an unsigned integer type and every token that is a minus sign
  followed only by decimal digits, at least one, whose magnitude \<open>strtoul\<close> can represent,
  the conversion signals 1, leaves the error message alone and stores the negated
  magnitude modulo \<open>2 ^ w\<close>, \<open>w\<close> being the width of the slot's type.
\<close>

theorem unsigned_minus_wraps:
  assumes "ds \<noteq> []" "list_all isdigit ds" "digits_val ds < 2 ^ 64"
    and "is_unsigned (getTypeInfo a)"
  shows "\<exists>a'. setValueChar strtof a (Some (CHR ''-'' # ds)) = Inr (1, a')
           \<and> stored_integer (m_value a') = Some ((- digits_val ds) mod 2 ^ width (getTypeInfo a))
           \<and> getTypeInfo a' = getTypeInfo a \<and> m_errorMsg a' = m_errorMsg a"
proof -
  let ?s = "CHR ''-'' # ds"
  have lit: "literal ?s" using assms(1,2) by (simp add: literal_def)
  have v: "literal_value ?s = - digits_val ds" by (simp add: literal_value_def)
  have "\<bar>literal_value ?s\<bar> < 2 ^ 64"
    using assms(3) digits_val_nonneg [OF assms(2)] by (simp add: v)
  then have ul: "strtoul ?s = (word_of_int (- digits_val ds), length ?s)"
    using strtoul_literal [OF lit] by (simp add: v)
  have nw: "\<not> not_whole (length ?s) ?s" by (simp add: not_whole_def)
  from assms(4) show ?thesis
    by (cases "m_value a")
       (simp_all add: is_unsigned_def getTypeInfo_def ul numeric_def nw width_def
          uint_neg64 uint_ucast_neg del: list.size)
qed

theorem unsigned_minus_wraps_witness:
  "''5'' \<noteq> [] \<and> list_all isdigit ''5'' \<and> digits_val ''5'' < 2 ^ 64
   \<and> is_unsigned (getTypeInfo (TypeHandler_new (V_uint 1) [] False :: unit AnyTypeArg))
   \<and> (\<exists>a'. setValueChar (\<lambda>s. ((), 0)) (TypeHandler_new (V_uint 1) [] False :: unit AnyTypeArg) (Some ''-5'') = Inr (1, a')
         \<and> stored_integer (m_value a')
             = Some ((- digits_val ''5'') mod 2 ^ width (getTypeInfo (TypeHandler_new (V_uint 1) [] False :: unit AnyTypeArg)))
         \<and> getTypeInfo a' = getTypeInfo (TypeHandler_new (V_uint 1) [] False :: unit AnyTypeArg)
         \<and> m_errorMsg a' = m_errorMsg (TypeHandler_new (V_uint 1) [] False :: unit AnyTypeArg))
   \<and> (- digits_val ''5'') mod 2 ^ width (getTypeInfo (TypeHandler_new (V_uint 1) [] False :: unit AnyTypeArg)) = 4294967291"
proof -
  have h: "''5'' \<noteq> []" "list_all isdigit ''5''" "digits_val ''5'' < 2 ^ 64"
    "is_unsigned (getTypeInfo (TypeHandler_new (V_uint 1) [] False :: unit AnyTypeArg))"
    by (simp_all add: evaluate)
  have v: "(- digits_val ''5'') mod 2 ^ width (getTypeInfo (TypeHandler_new (V_uint 1) [] False :: unit AnyTypeArg)) = 4294967291"
    by (simp add: evaluate)
  have c: "\<exists>a'. setValueChar (\<lambda>s. ((), 0)) (TypeHandler_new (V_uint 1) [] False :: unit AnyTypeArg) (Some ''-5'') = Inr (1, a')
         \<and> stored_integer (m_value a')
             = Some ((- digits_val ''5'') mod 2 ^ width (getTypeInfo (TypeHandler_new (V_uint 1) [] False :: unit AnyTypeArg)))
         \<and> getTypeInfo a' = getTypeInfo (TypeHandler_new (V_uint 1) [] False :: unit AnyTypeArg)
         \<and> m_errorMsg a' = m_errorMsg (TypeHandler_new (V_uint 1) [] False :: unit AnyTypeArg)"
    by (rule unsigned_minus_wraps [OF h])
  show ?thesis
    by (intro conjI h v c)
qed

end
